theory Spec2Isabelle
  imports Complex_Main "HOL-Library.Sublist"
begin

section \<open>Python values\<close>

text \<open>
  A Python \<open>str\<close> is a sequence of Unicode code points; the transcripts, the reasons and
  the markers of this program are mostly non-ASCII, so a string is a list of code points.
\<close>

type_synonym ustring = "nat list"

definition ustr :: "string \<Rightarrow> ustring" where
  "ustr s = map of_char s"

text \<open>The characters for which \<open>str.isspace()\<close> holds; \<open>\s\<close> of \<open>re\<close> matches the same set.\<close>

definition is_space :: "nat \<Rightarrow> bool" where
  "is_space c \<longleftrightarrow>
     (9 \<le> c \<and> c \<le> 13) \<or> (28 \<le> c \<and> c \<le> 32) \<or> c = 133 \<or> c = 160 \<or> c = 5760 \<or>
     (8192 \<le> c \<and> c \<le> 8202) \<or> c = 8232 \<or> c = 8233 \<or> c = 8239 \<or> c = 8287 \<or> c = 12288"

definition lstrip :: "ustring \<Rightarrow> ustring" where
  "lstrip s = dropWhile is_space s"

definition strip :: "ustring \<Rightarrow> ustring" where
  "strip s = rev (dropWhile is_space (rev (dropWhile is_space s)))"

text \<open>What \<open>json.loads\<close> can return. A float is finite or one of the three special values.\<close>

datatype pyfloat = Finite rat | NaN | PosInf | NegInf

datatype json =
    JNull
  | JBool bool
  | JInt int
  | JFloat pyfloat
  | JStr ustring
  | JList "json list"
  | JObj "(ustring \<times> json) list"

datatype exn = OracleError ustring | ValueError | TypeError | IndexError | KeyError | AttributeError

text \<open>
  The behaviour of the Python library that the program relies on and that is not part of it:
  \<open>int(s)\<close> on a \<open>str\<close> (\<open>None\<close> when it raises), \<open>str(x)\<close> on a value that is
  not a \<open>str\<close>, \<open>repr(e)\<close> of the last exception (of \<open>None\<close> when there is none),
  and \<open>json.loads\<close> (\<open>None\<close> when it raises).
\<close>

record builtins =
  int_of_str :: "ustring \<Rightarrow> int option"
  str_of_other :: "json \<Rightarrow> ustring"
  repr_exn :: "exn option \<Rightarrow> ustring"
  json_loads :: "ustring \<Rightarrow> json option"

text \<open>\<open>bool(x)\<close>\<close>

fun py_bool :: "json \<Rightarrow> bool" where
  "py_bool JNull = False"
| "py_bool (JBool b) = b"
| "py_bool (JInt i) = (i \<noteq> 0)"
| "py_bool (JFloat f) = (f \<noteq> Finite 0)"
| "py_bool (JStr s) = (s \<noteq> [])"
| "py_bool (JList xs) = (xs \<noteq> [])"
| "py_bool (JObj kvs) = (kvs \<noteq> [])"

text \<open>\<open>int(x)\<close>; \<open>None\<close> when it raises. A finite float is truncated towards zero.\<close>

fun py_int :: "builtins \<Rightarrow> json \<Rightarrow> int option" where
  "py_int B JNull = None"
| "py_int B (JBool b) = Some (if b then 1 else 0)"
| "py_int B (JInt i) = Some i"
| "py_int B (JFloat (Finite r)) = Some (if 0 \<le> r then \<lfloor>r\<rfloor> else \<lceil>r\<rceil>)"
| "py_int B (JFloat f) = None"
| "py_int B (JStr s) = int_of_str B s"
| "py_int B (JList xs) = None"
| "py_int B (JObj kvs) = None"

text \<open>\<open>str(x)\<close>\<close>

fun py_str :: "builtins \<Rightarrow> json \<Rightarrow> ustring" where
  "py_str B (JStr s) = s"
| "py_str B v = str_of_other B v"

text \<open>\<open>d.get(k, default)\<close> on a dict\<close>

definition dict_get :: "(ustring \<times> json) list \<Rightarrow> ustring \<Rightarrow> json \<Rightarrow> json" where
  "dict_get kvs k d = (case map_of kvs k of None \<Rightarrow> d | Some v \<Rightarrow> v)"

text \<open>\<open>k in x\<close> for a \<open>str\<close> \<open>k\<close>: key of a dict, element of a list, substring of a string;
  a \<open>TypeError\<close> on the other values.\<close>

fun py_contains :: "ustring \<Rightarrow> json \<Rightarrow> exn + bool" where
  "py_contains k (JObj kvs) = Inr (map_of kvs k \<noteq> None)"
| "py_contains k (JList xs) = Inr (JStr k \<in> set xs)"
| "py_contains k (JStr s) = Inr (sublist k s)"
| "py_contains k v = Inl TypeError"

text \<open>\<open>x[k]\<close> for a \<open>str\<close> \<open>k\<close> that \<open>k in x\<close> has found: only a dict has it.\<close>

fun py_getitem :: "json \<Rightarrow> ustring \<Rightarrow> exn + json" where
  "py_getitem (JObj kvs) k = (case map_of kvs k of None \<Rightarrow> Inl KeyError | Some v \<Rightarrow> Inr v)"
| "py_getitem v k = Inl TypeError"

section \<open>Module2: the result normalizer\<close>

record verdict =
  vid :: int
  retain :: bool
  exclude_reason :: ustring

text \<open>The reason of the default verdict (a Chinese sentence: the model did not return this
  item, check it by hand), by its code points.\<close>

definition manual_review_reason :: ustring where
  "manual_review_reason =
     [27169, 22411, 26410, 36820, 22238, 35813, 26465, 32467, 26524, 65292, 38656, 20154,
      24037, 26816, 26597]"

definition default_verdict :: "int \<Rightarrow> verdict" where
  "default_verdict bid = \<lparr>vid = bid, retain = False, exclude_reason = manual_review_reason\<rparr>"

text \<open>The verdict built from an accepted entry (a dict) of the \<open>filtering\<close> list.\<close>

definition verdict_of :: "builtins \<Rightarrow> int \<Rightarrow> (ustring \<times> json) list \<Rightarrow> verdict" where
  "verdict_of B bid kvs =
     (let retain = py_bool (dict_get kvs (ustr ''retain'') JNull);
          reason = strip (py_str B (dict_get kvs (ustr ''exclude_reason'') (JStr [])));
          reason = (if retain then [] else reason)
      in \<lparr>vid = bid, retain = retain, exclude_reason = reason\<rparr>)"

text \<open>\<open>int(item.get("id"))\<close> under its \<open>try\<close>: \<open>None\<close> when the entry is skipped.\<close>

fun item_id :: "builtins \<Rightarrow> json \<Rightarrow> int option" where
  "item_id B (JObj kvs) = py_int B (dict_get kvs (ustr ''id'') JNull)"
| "item_id B v = None"

text \<open>The first loop of \<open>_normalize_filtering_result\<close>, on the state \<open>(seen, out)\<close>.\<close>

fun scan_items :: "builtins \<Rightarrow> int \<Rightarrow> json list \<Rightarrow> int set \<times> verdict list \<Rightarrow> int set \<times> verdict list" where
  "scan_items B n [] acc = acc"
| "scan_items B n (item # items) (seen, out) =
     (case item of
        JObj kvs \<Rightarrow>
          (case py_int B (dict_get kvs (ustr ''id'') JNull) of
             None \<Rightarrow> scan_items B n items (seen, out)
           | Some bid \<Rightarrow>
               if bid < 1 \<or> bid > n \<or> bid \<in> seen then scan_items B n items (seen, out)
               else scan_items B n items (insert bid seen, out @ [verdict_of B bid kvs]))
      | _ \<Rightarrow> scan_items B n items (seen, out))"

text \<open>The second loop and the sort.\<close>

definition fill_and_sort :: "int \<Rightarrow> int set \<times> verdict list \<Rightarrow> verdict list" where
  "fill_and_sort n acc =
     (case acc of (seen, out) \<Rightarrow>
        sort_key vid (out @ map default_verdict (filter (\<lambda>bid. bid \<notin> seen) [1..n])))"

definition normalize_filtering_result :: "builtins \<Rightarrow> json \<Rightarrow> int \<Rightarrow> exn + verdict list" where
  "normalize_filtering_result B data batch_size =
     (if \<not> py_bool data then Inr []
      else case py_contains (ustr ''filtering'') data of
             Inl e \<Rightarrow> Inl e
           | Inr False \<Rightarrow> Inr []
           | Inr True \<Rightarrow>
               (case py_getitem data (ustr ''filtering'') of
                  Inl e \<Rightarrow> Inl e
                | Inr (JList items) \<Rightarrow> Inr (fill_and_sort batch_size (scan_items B batch_size items ({}, [])))
                | Inr _ \<Rightarrow> Inr []))"

section \<open>Module2: the resilient batch classifier\<close>

text \<open>
  The mutable state of \<open>filter_unique_codes_with_batching\<close>: the two dicts that
  \<open>process_range\<close> writes, the state of the outside world that the oracle call reads and
  changes, and a count of the oracle calls made so far (a ghost field: the source does not
  count them).
\<close>

record 'w fstate =
  id2retain :: "nat \<rightharpoonup> bool"
  id2reason :: "nat \<rightharpoonup> ustring"
  world :: 'w
  attempts :: nat

text \<open>
  One call \<open>_call_filter_batch(batch_items=...)\<close>: it raises or returns the parsed data,
  and it changes the world. Every behaviour of the remote model is such a function of the
  world's state.
\<close>

type_synonym 'w batch_call = "'w \<Rightarrow> (int \<times> ustring) list \<Rightarrow> (exn + json) \<times> 'w"

text \<open>\<open>xs[i]\<close>: a negative index counts from the end; \<open>None\<close> is the \<open>IndexError\<close>.\<close>

definition py_index :: "'a list \<Rightarrow> int \<Rightarrow> 'a option" where
  "py_index xs i =
     (let n = int (length xs); j = (if i < 0 then n + i else i)
      in if 0 \<le> j \<and> j < n then Some (xs ! nat j) else None)"

text \<open>\<open>xs[start:end]\<close> for indices that are not negative.\<close>

definition py_slice :: "'a list \<Rightarrow> nat \<Rightarrow> nat \<Rightarrow> 'a list" where
  "py_slice xs start_idx end_idx = take (end_idx - start_idx) (drop start_idx xs)"

text \<open>The loop \<open>for item in filtering\<close> of an attempt; the writes made before an
  exception stay.\<close>

fun record_verdicts :: "nat list \<Rightarrow> verdict list \<Rightarrow> 'w fstate \<Rightarrow> exn option \<times> 'w fstate" where
  "record_verdicts global_ids [] st = (None, st)"
| "record_verdicts global_ids (item # items) st =
     (case py_index global_ids (vid item - 1) of
        None \<Rightarrow> (Some IndexError, st)
      | Some gid \<Rightarrow>
          record_verdicts global_ids items
            (st\<lparr>id2retain := (id2retain st)(gid \<mapsto> retain item),
                id2reason := (id2reason st)(gid \<mapsto> strip (exclude_reason item))\<rparr>))"

text \<open>
  The loop \<open>for attempt in range(1, max_retries_each_batch + 1)\<close>, by the number of
  attempts that remain. The result says whether an attempt returned, and gives
  \<open>last_err\<close> and the state.
\<close>

fun attempt_loop ::
  "builtins \<Rightarrow> 'w batch_call \<Rightarrow> (int \<times> ustring) list \<Rightarrow> nat list \<Rightarrow> nat \<Rightarrow> nat \<Rightarrow> exn option \<Rightarrow>
   'w fstate \<Rightarrow> bool \<times> exn option \<times> 'w fstate" where
  "attempt_loop B call batch_items global_ids n 0 last_err st = (False, last_err, st)"
| "attempt_loop B call batch_items global_ids n (Suc k) last_err st =
     (case call (world st) batch_items of
        (r, w') \<Rightarrow>
          let st1 = st\<lparr>world := w', attempts := Suc (attempts st)\<rparr> in
          (case r of
             Inl e \<Rightarrow> attempt_loop B call batch_items global_ids n k (Some e) st1
           | Inr data \<Rightarrow>
               (case normalize_filtering_result B data (int n) of
                  Inl e \<Rightarrow> attempt_loop B call batch_items global_ids n k (Some e) st1
                | Inr filtering \<Rightarrow>
                    if filtering = [] then
                      attempt_loop B call batch_items global_ids n k (Some ValueError) st1
                    else
                      (case record_verdicts global_ids filtering st1 of
                         (None, st2) \<Rightarrow> (True, last_err, st2)
                       | (Some e, st2) \<Rightarrow>
                           attempt_loop B call batch_items global_ids n k (Some e) st2))))"

text \<open>The reason of the single-item failure default: a fixed prefix (fifteen code points,
  the first of them \<open>API\<close>) followed by \<open>repr(last_err)\<close>.\<close>

definition single_failure_reason :: "builtins \<Rightarrow> exn option \<Rightarrow> ustring" where
  "single_failure_reason B last_err =
     [65, 80, 73, 22833, 36133, 47, 35299, 26512, 22833, 36133, 65288, 21333, 26465, 65289,
      65306] @ repr_exn B last_err"

text \<open>\<open>[{"id": i + 1, "text": sub[i]} for i in range(n)]\<close>\<close>

definition batch_items_of :: "ustring list \<Rightarrow> (int \<times> ustring) list" where
  "batch_items_of sub = map (\<lambda>i. (int i + 1, sub ! i)) [0 ..< length sub]"

text \<open>
  \<open>process_range\<close>, the closure of \<open>filter_unique_codes_with_batching\<close>, with what it takes
  from the enclosing call as parameters. The indices are the list indices that the driver
  loop and the bisection pass, which are never negative; a retry count below one gives no
  attempt. The sleeps between attempts and between batches are not modelled.
\<close>

function process_range ::
  "builtins \<Rightarrow> 'w batch_call \<Rightarrow> int \<Rightarrow> ustring list \<Rightarrow> nat \<Rightarrow> nat \<Rightarrow> 'w fstate \<Rightarrow> 'w fstate" where
  "process_range B call max_retries unique_codes start_idx end_idx st =
     (let sub = py_slice unique_codes start_idx end_idx;
          global_ids = [start_idx + 1 ..< end_idx + 1];
          n = length sub
      in if n = 0 then st
         else
           let batch_items = batch_items_of sub in
           case attempt_loop B call batch_items global_ids n (nat max_retries) None st of
             (returned, last_err, st') \<Rightarrow>
               if returned then st'
               else if n = 1 then
                 st'\<lparr>id2retain := (id2retain st')(global_ids ! 0 \<mapsto> False),
                     id2reason := (id2reason st')(global_ids ! 0 \<mapsto> single_failure_reason B last_err)\<rparr>
               else
                 let mid = start_idx + n div 2 in
                 process_range B call max_retries unique_codes mid end_idx
                   (process_range B call max_retries unique_codes start_idx mid st'))"
  by pat_completeness auto
termination
proof (relation "measure (\<lambda>(B, call, max_retries, unique_codes, start_idx, end_idx, st).
                    length (py_slice unique_codes start_idx end_idx))", goal_cases)
  case 1
  show ?case by simp
next
  case (2 B call max_retries unique_codes start_idx end_idx st sub global_ids n batch_items
          returned rest last_err st' mid)
  have n: "n = length (py_slice unique_codes start_idx end_idx)" "n \<noteq> 0" "n \<noteq> 1"
    using 2(1,3,4,9) by simp_all
  have "length (py_slice unique_codes start_idx mid) \<le> n div 2"
    using 2(10) by (simp add: py_slice_def)
  moreover have "n div 2 < n"
    using n(2) by simp
  ultimately show ?case
    using n(1) by simp
next
  case (3 B call max_retries unique_codes start_idx end_idx st sub global_ids n batch_items
          returned rest last_err st' mid)
  have n: "n = length (py_slice unique_codes start_idx end_idx)" "n \<noteq> 0" "n \<noteq> 1"
    using 3(1,3,4,9) by simp_all
  have h: "0 < n div 2"
    using n(2,3) by (cases n) (simp_all add: Suc_le_eq)
  have "length (py_slice unique_codes mid end_idx) = n - n div 2"
  proof -
    have n_min: "n = min (end_idx - start_idx) (length unique_codes - start_idx)"
      using n(1) by (simp add: py_slice_def)
    have "length (py_slice unique_codes mid end_idx) =
          min (end_idx - mid) (length unique_codes - mid)"
      by (simp add: py_slice_def)
    also have "\<dots> = min (end_idx - start_idx - n div 2) (length unique_codes - start_idx - n div 2)"
      unfolding 3(10) by (simp only: diff_diff_left)
    also have "\<dots> = min (end_idx - start_idx) (length unique_codes - start_idx) - n div 2"
      by (rule min_diff)
    finally show ?thesis
      using n_min by simp
  qed
  then show ?case
    using n h by simp
qed

text \<open>\<open>range(start, stop, step)\<close> for a positive step.\<close>

function py_range :: "nat \<Rightarrow> nat \<Rightarrow> nat \<Rightarrow> nat list" where
  "py_range s stop step = (if step = 0 \<or> stop \<le> s then [] else s # py_range (s + step) stop step)"
  by pat_completeness auto
termination
  by (relation "measure (\<lambda>(s, stop, step). stop - s)") auto

text \<open>
  \<open>filter_unique_codes_with_batching\<close>. The dict
  \<open>id2code = {i + 1: code for i, code in enumerate(unique_codes)}\<close> is the list of its items
  in insertion order (\<open>id2code_of\<close>). \<open>range\<close> raises \<open>ValueError\<close> on a zero step and is empty for a
  negative one.
\<close>

definition id2code_of :: "ustring list \<Rightarrow> (nat \<times> ustring) list" where
  "id2code_of unique_codes = map (\<lambda>(i, code). (i + 1, code)) (enumerate 0 unique_codes)"

definition filter_unique_codes_with_batching ::
  "builtins \<Rightarrow> 'w batch_call \<Rightarrow> ustring list \<Rightarrow> int \<Rightarrow> int \<Rightarrow> 'w \<Rightarrow>
   exn + ('w fstate \<times> (nat \<times> ustring) list)" where
  "filter_unique_codes_with_batching B call unique_codes batch_size max_retries w =
     (let id2code = id2code_of unique_codes;
          st0 = \<lparr>id2retain = Map.empty, id2reason = Map.empty, world = w, attempts = 0\<rparr>;
          total = length unique_codes
      in if batch_size = 0 then Inl ValueError
         else
           Inr (fold (\<lambda>s st. process_range B call max_retries unique_codes s
                               (min (s + nat batch_size) total) st)
                  (if batch_size < 0 then [] else py_range 0 total (nat batch_size)) st0,
                id2code))"

text \<open>The dict \<open>code2id = {v: k for k, v in id2code.items()}\<close> of
  \<open>build_filter_outputs_from_open_df\<close>: a later item overwrites an earlier one.\<close>

definition code2id_step :: "nat \<times> ustring \<Rightarrow> (ustring \<rightharpoonup> nat) \<Rightarrow> (ustring \<rightharpoonup> nat)" where
  "code2id_step kv m = m(snd kv \<mapsto> fst kv)"

definition code2id_of :: "(nat \<times> ustring) list \<Rightarrow> (ustring \<rightharpoonup> nat)" where
  "code2id_of id2code = fold code2id_step id2code Map.empty"

section \<open>Module1: the text segmenter\<close>

text \<open>\<open>str.splitlines()\<close>: the line boundaries are LF, VT, FF, CR, CR LF, FS, GS, RS, NEL,
  LS and PS; the text after the last boundary is a line when it is not empty.\<close>

definition is_linebreak :: "nat \<Rightarrow> bool" where
  "is_linebreak c \<longleftrightarrow>
     (10 \<le> c \<and> c \<le> 13) \<or> (28 \<le> c \<and> c \<le> 30) \<or> c = 133 \<or> c = 8232 \<or> c = 8233"

fun splitlines_from :: "ustring \<Rightarrow> ustring \<Rightarrow> ustring list" where
  "splitlines_from cur [] = (if cur = [] then [] else [cur])"
| "splitlines_from cur [c] = (if is_linebreak c then [cur] else [cur @ [c]])"
| "splitlines_from cur (c # d # cs) =
     (if c = 13 \<and> d = 10 then cur # splitlines_from [] cs
      else if is_linebreak c then cur # splitlines_from [] (d # cs)
      else splitlines_from (cur @ [c]) (d # cs))"

definition splitlines :: "ustring \<Rightarrow> ustring list" where
  "splitlines text = splitlines_from [] text"

text \<open>\<open>sep.join(xs)\<close>\<close>

fun join :: "ustring \<Rightarrow> ustring list \<Rightarrow> ustring" where
  "join sep [] = []"
| "join sep [x] = x"
| "join sep (x # y # ys) = x @ sep @ join sep (y # ys)"

record qa_block =
  question :: ustring
  answer :: ustring

record qa_state =
  blocks :: "qa_block list"
  current_q :: "ustring option"
  current_a_lines :: "ustring list"

text \<open>\<open>line.startswith((m + ":", m + "\<dots>"))\<close> for the marker letter \<open>m\<close> and the ASCII
  or the fullwidth colon (U+FF1A).\<close>

fun starts_with_marker :: "nat \<Rightarrow> ustring \<Rightarrow> bool" where
  "starts_with_marker m (c # d # cs) = (c = m \<and> (d = 58 \<or> d = 65306))"
| "starts_with_marker m cs = False"

text \<open>\<open>re.sub(r"^Q[:\<dots>]\s*", "", line)\<close> on a line that starts with the marker: the
  marker and the white space after it go.\<close>

definition strip_marker :: "ustring \<Rightarrow> ustring" where
  "strip_marker line = lstrip (drop 2 line)"

text \<open>The \<open>blocks.append\<close> guarded by \<open>current_q is not None and current_a_lines\<close>.\<close>

definition flush_pending :: "qa_state \<Rightarrow> qa_state" where
  "flush_pending st =
     (case current_q st of
        None \<Rightarrow> st
      | Some q \<Rightarrow>
          if current_a_lines st \<noteq> [] then
            st\<lparr>blocks := blocks st @ [\<lparr>question = strip q,
                                         answer = strip (join [10] (current_a_lines st))\<rparr>],
               current_a_lines := []\<rparr>
          else st)"

text \<open>One iteration of the loop over the lines.\<close>

definition qa_step :: "ustring \<Rightarrow> qa_state \<Rightarrow> qa_state" where
  "qa_step raw_line st =
     (let line = strip raw_line in
      if line = [] then st
      else if starts_with_marker 81 line then
        (flush_pending st)\<lparr>current_q := Some (strip_marker line)\<rparr>
      else if starts_with_marker 65 line then
        (let a_body = strip_marker line in
         if a_body \<noteq> [] then st\<lparr>current_a_lines := current_a_lines st @ [a_body]\<rparr> else st)
      else if current_a_lines st \<noteq> [] then
        st\<lparr>current_a_lines := current_a_lines st @ [line]\<rparr>
      else
        (case current_q st of
           None \<Rightarrow> st
         | Some q \<Rightarrow> st\<lparr>current_q := Some (q @ [32] @ line)\<rparr>))"

definition parse_qa_blocks :: "ustring \<Rightarrow> qa_block list" where
  "parse_qa_blocks text =
     blocks (flush_pending
       (fold qa_step (splitlines text) \<lparr>blocks = [], current_q = None, current_a_lines = []\<rparr>))"

section \<open>Module1, Module2, Module4: the structured-response extractor\<close>

text \<open>\<open>re.sub(r"^```json\s*", "", s, flags=re.IGNORECASE)\<close>: under \<open>IGNORECASE\<close> the
  letter s also matches U+017F.\<close>

fun sub_fence_json :: "ustring \<Rightarrow> ustring" where
  "sub_fence_json (a # b # c # c4 # c5 # c6 # c7 # rest) =
     (if a = 96 \<and> b = 96 \<and> c = 96 \<and> (c4 = 106 \<or> c4 = 74) \<and>
         (c5 = 115 \<or> c5 = 83 \<or> c5 = 383) \<and> (c6 = 111 \<or> c6 = 79) \<and> (c7 = 110 \<or> c7 = 78)
      then lstrip rest else a # b # c # c4 # c5 # c6 # c7 # rest)"
| "sub_fence_json s = s"

text \<open>\<open>re.sub(r"^```\s*", "", s)\<close>\<close>

fun sub_fence :: "ustring \<Rightarrow> ustring" where
  "sub_fence (a # b # c # rest) =
     (if a = 96 \<and> b = 96 \<and> c = 96 then lstrip rest else a # b # c # rest)"
| "sub_fence s = s"

text \<open>\<open>re.sub(r"\s*```$", "", s)\<close>: the leftmost place from which white space and a fence
  reach the end of the string, or the newline that ends it.\<close>

definition fence_at_end :: "ustring \<Rightarrow> bool" where
  "fence_at_end s = (let r = lstrip s in take 3 r = [96, 96, 96] \<and> (drop 3 r = [] \<or> drop 3 r = [10]))"

fun sub_trailing_fence :: "ustring \<Rightarrow> ustring" where
  "sub_trailing_fence [] = []"
| "sub_trailing_fence (c # cs) =
     (if fence_at_end (c # cs) then (if last (c # cs) = 10 then [10] else [])
      else c # sub_trailing_fence cs)"

text \<open>\<open>s.find(c)\<close> and \<open>s.rfind(c)\<close> for a character that occurs in \<open>s\<close>.\<close>

definition find_char :: "nat \<Rightarrow> ustring \<Rightarrow> nat" where
  "find_char c s = length (takeWhile (\<lambda>x. x \<noteq> c) s)"

definition rfind_char :: "nat \<Rightarrow> ustring \<Rightarrow> nat" where
  "rfind_char c s = length s - 1 - length (takeWhile (\<lambda>x. x \<noteq> c) (rev s))"

text \<open>\<open>safe_parse_json\<close> on a \<open>str\<close>; the result \<open>JNull\<close> is Python's \<open>None\<close>.\<close>

definition safe_parse_json :: "builtins \<Rightarrow> ustring \<Rightarrow> json" where
  "safe_parse_json B text =
     (let s = strip text;
          s = sub_fence_json s;
          s = sub_fence s;
          s = sub_trailing_fence s
      in case json_loads B s of
           Some v \<Rightarrow> v
         | None \<Rightarrow>
             if 123 \<in> set s \<and> 125 \<in> set s then
               (let snippet = py_slice s (find_char 123 s) (rfind_char 125 s + 1)
                in case json_loads B snippet of Some v \<Rightarrow> v | None \<Rightarrow> JNull)
             else JNull)"

text \<open>\<open>x or y\<close>\<close>

definition py_or :: "json \<Rightarrow> json \<Rightarrow> json" where
  "py_or x y = (if py_bool x then x else y)"

text \<open>\<open>_call_filter_batch\<close>, from the request: \<open>post\<close> sends it and gives the message
  content of the reply, or raises.\<close>

definition call_filter_batch :: "builtins \<Rightarrow> 'w batch_call \<Rightarrow> 'w batch_call" where
  "call_filter_batch B post w batch_items =
     (case post w batch_items of
        (Inl e, w') \<Rightarrow> (Inl e, w')
      | (Inr raw_text, w') \<Rightarrow>
          (Inr (py_or (case raw_text of JStr t \<Rightarrow> safe_parse_json B t | _ \<Rightarrow> JNull) (JObj [])), w'))"

section \<open>Module4: the coverage validator\<close>





text \<open>The distinct elements in the order of their first occurrence: the keys of a
  \<open>Counter\<close>. The order in which a \<open>set\<close> is iterated is not fixed by Python; the model
  takes this one.\<close>

definition first_occurrences :: "'a list \<Rightarrow> 'a list" where
  "first_occurrences xs = rev (remdups (rev xs))"


section \<open>Auxiliary notions\<close>

text \<open>The verdict that the first entry with the id \<open>i\<close> gives, as a list of at most one
  element.\<close>

definition first_entry :: "builtins \<Rightarrow> int \<Rightarrow> json list \<Rightarrow> verdict list" where
  "first_entry B i items =
     (case find (\<lambda>item. item_id B item = Some i) items of
        Some (JObj kvs) \<Rightarrow> [verdict_of B i kvs]
      | _ \<Rightarrow> [])"


text \<open>The number of nodes of the tree of calls that \<open>process_range\<close> makes on \<open>n\<close> items
  when every batch of more than one item fails.\<close>

function bisect_nodes :: "nat \<Rightarrow> nat" where
  "bisect_nodes n =
     (if n = 0 then 0 else if n = 1 then 1
      else 1 + bisect_nodes (n div 2) + bisect_nodes (n - n div 2))"
  by pat_completeness auto
termination
proof (relation "measure (\<lambda>n. n)", goal_cases)
  case 1
  show ?case by simp
next
  case (2 n)
  then show ?case by simp
next
  case (3 n)
  then have "0 < n div 2" by (cases n) (simp_all add: Suc_le_eq)
  with 3 show ?case by simp
qed


text \<open>An attempt whose response is unusable: the call raised, or the normalizer raised or
  gave the empty list.\<close>

definition unusable :: "builtins \<Rightarrow> exn + json \<Rightarrow> nat \<Rightarrow> bool" where
  "unusable B r n =
     (case r of
        Inl e \<Rightarrow> True
      | Inr data \<Rightarrow>
          (case normalize_filtering_result B data (int n) of Inl e \<Rightarrow> True | Inr vs \<Rightarrow> vs = []))"

text \<open>The state \<open>st'\<close> is \<open>st\<close> with the verdicts \<open>vs\<close> (ids \<open>1, \<dots>, n\<close>) written at the
  global ids \<open>s + 1, \<dots>, s + n\<close>; the other keys are as in \<open>st\<close>.\<close>

definition wrote_batch :: "nat \<Rightarrow> nat \<Rightarrow> verdict list \<Rightarrow> 'w fstate \<Rightarrow> 'w fstate \<Rightarrow> bool" where
  "wrote_batch s n vs st st' \<longleftrightarrow>
     (\<forall>g. id2retain st' g =
        (if s < g \<and> g \<le> s + n then Some (retain (vs ! (g - s - 1))) else id2retain st g)) \<and>
     (\<forall>g. id2reason st' g =
        (if s < g \<and> g \<le> s + n then Some (strip (exclude_reason (vs ! (g - s - 1))))
         else id2reason st g))"

text \<open>The state \<open>st'\<close> has a verdict at each of the global ids \<open>s + 1, \<dots>, s + n\<close>; the
  other keys are as in \<open>st\<close>.\<close>

definition covers :: "nat \<Rightarrow> nat \<Rightarrow> 'w fstate \<Rightarrow> 'w fstate \<Rightarrow> bool" where
  "covers s n st st' \<longleftrightarrow>
     (\<forall>g. if s < g \<and> g \<le> s + n
          then id2retain st' g \<noteq> None \<and> id2reason st' g \<noteq> None
          else id2retain st' g = id2retain st g \<and> id2reason st' g = id2reason st g)"

text \<open>The verdict of \<open>truth\<close> for the text \<open>t\<close> as the normalizer reads it from the reply:
  the reason is stripped, and empty when the item is retained.\<close>

definition normalized_truth :: "(ustring \<Rightarrow> bool \<times> ustring) \<Rightarrow> ustring \<Rightarrow> bool \<times> ustring" where
  "normalized_truth truth t =
     (fst (truth t), if fst (truth t) then [] else strip (snd (truth t)))"

text \<open>The invariant of the segmenter's loop: the answers emitted so far are not empty, and
  every line of the answer buffer holds a character that is not white space.\<close>

definition answers_ok :: "qa_state \<Rightarrow> bool" where
  "answers_ok st \<longleftrightarrow>
     (\<forall>b\<in>set (blocks st). answer b \<noteq> []) \<and>
     (\<forall>l\<in>set (current_a_lines st). \<exists>c\<in>set l. \<not> is_space c)"


section \<open>Concrete inputs\<close>

definition example_builtins :: builtins where
  "example_builtins =
     \<lparr>int_of_str = (\<lambda>s. None), str_of_other = (\<lambda>v. []), repr_exn = (\<lambda>e. []),
      json_loads = (\<lambda>s. None)\<rparr>"


text \<open>Three codes, and a call that always raises.\<close>

definition example_codes :: "ustring list" where
  "example_codes = [ustr ''a'', ustr ''b'', ustr ''c'']"

definition failing_call :: "unit batch_call" where
  "failing_call w batch_items = (Inl (OracleError []), w)"

text \<open>The state before the first batch, and a call whose reply has an empty
  \<open>filtering\<close> list.\<close>

definition empty_state :: "unit fstate" where
  "empty_state = \<lparr>id2retain = Map.empty, id2reason = Map.empty, world = (), attempts = 0\<rparr>"

definition empty_list_call :: "unit batch_call" where
  "empty_list_call w batch_items = (Inr (JObj [(ustr ''filtering'', JList [])]), w)"







text \<open>The transcript of the specification's example (a question, an answer line and a
  continuation line), and the transcript \<open>"A: x\\nQ: y"\<close>, whose answer line comes before
  its only question.\<close>

definition example_transcript :: ustring where
  "example_transcript =
     [81, 58, 32, 20320, 35273, 24471, 24037, 20316, 21387, 21147, 22823, 21527, 65311, 10,
      65, 58, 32, 26159, 30340, 65292, 21387, 21147, 24456, 22823, 10, 24456, 32047]"

definition orphan_answer_text :: ustring where
  "orphan_answer_text = ustr ''A: x'' @ [10] @ ustr ''Q: y''"

text \<open>A \<open>json.loads\<close> that knows the document \<open>[1, 2]\<close>, as the library parses it.\<close>

definition list_builtins :: builtins where
  "list_builtins =
     \<lparr>int_of_str = (\<lambda>s. None), str_of_other = (\<lambda>v. []), repr_exn = (\<lambda>e. []),
      json_loads = (\<lambda>s. if s = ustr ''[1, 2]'' then Some (JList [JInt 1, JInt 2]) else None)\<rparr>"

section \<open>The result normalizer\<close>

lemma vid_verdict_of [simp]: "vid (verdict_of B bid kvs) = bid"
  by (simp add: verdict_of_def Let_def)

lemma vid_default_verdict [simp]: "vid (default_verdict bid) = bid"
  by (simp add: default_verdict_def)

lemma vid_comp_default [simp]: "vid \<circ> default_verdict = (\<lambda>bid. bid)"
  by (simp add: fun_eq_iff)

lemma scan_items_skip:
  assumes "\<not> (\<exists>kvs bid. item = JObj kvs \<and> py_int B (dict_get kvs (ustr ''id'') JNull) = Some bid
              \<and> \<not> (bid < 1 \<or> bid > n \<or> bid \<in> seen))"
  shows "scan_items B n (item # items) (seen, out) = scan_items B n items (seen, out)"
  using assms by (cases item) (auto split: option.splits if_splits)

lemma scan_items_accept:
  assumes "item = JObj kvs" "py_int B (dict_get kvs (ustr ''id'') JNull) = Some bid"
    "1 \<le> bid" "bid \<le> n" "bid \<notin> seen"
  shows "scan_items B n (item # items) (seen, out) =
         scan_items B n items (insert bid seen, out @ [verdict_of B bid kvs])"
  using assms by simp

lemma scan_items_ids:
  "scan_items B n items (seen, out) = (seen', out') \<Longrightarrow> set (map vid out) = seen \<Longrightarrow>
   distinct (map vid out) \<Longrightarrow> seen \<subseteq> {1..n} \<Longrightarrow>
   set (map vid out') = seen' \<and> distinct (map vid out') \<and> seen' \<subseteq> {1..n}"
proof (induction items arbitrary: seen out)
  case Nil
  then show ?case by simp
next
  case (Cons item items)
  show ?case
  proof (cases "\<exists>kvs bid. item = JObj kvs \<and> py_int B (dict_get kvs (ustr ''id'') JNull) = Some bid
                  \<and> \<not> (bid < 1 \<or> bid > n \<or> bid \<in> seen)")
    case True
    then obtain kvs bid where h: "item = JObj kvs"
        "py_int B (dict_get kvs (ustr ''id'') JNull) = Some bid" "1 \<le> bid" "bid \<le> n" "bid \<notin> seen"
      by force
    have "scan_items B n items (insert bid seen, out @ [verdict_of B bid kvs]) = (seen', out')"
      using Cons.prems(1) scan_items_accept[OF h] by simp
    then show ?thesis
      using Cons.IH[of "insert bid seen" "out @ [verdict_of B bid kvs]"] Cons.prems(2-4) h(3-5)
      by auto
  next
    case False
    then have "scan_items B n items (seen, out) = (seen', out')"
      using Cons.prems(1) scan_items_skip by metis
    then show ?thesis
      using Cons.IH Cons.prems by blast
  qed
qed

lemma first_entry_Nil [simp]: "first_entry B i [] = []"
  by (simp add: first_entry_def)

lemma first_entry_hit:
  "item = JObj kvs \<Longrightarrow> py_int B (dict_get kvs (ustr ''id'') JNull) = Some i \<Longrightarrow>
   first_entry B i (item # items) = [verdict_of B i kvs]"
  by (simp add: first_entry_def)

lemma first_entry_miss:
  "item_id B item \<noteq> Some i \<Longrightarrow> first_entry B i (item # items) = first_entry B i items"
  by (simp add: first_entry_def)

lemma scan_items_filter:
  "scan_items B n items (seen, out) = (seen', out') \<Longrightarrow> set (map vid out) = seen \<Longrightarrow>
   filter (\<lambda>v. vid v = i) out' =
   filter (\<lambda>v. vid v = i) out @ (if i \<in> seen \<or> i < 1 \<or> n < i then [] else first_entry B i items)"
proof (induction items arbitrary: seen out)
  case Nil
  then show ?case by simp
next
  case (Cons item items)
  show ?case
  proof (cases "\<exists>kvs bid. item = JObj kvs \<and> py_int B (dict_get kvs (ustr ''id'') JNull) = Some bid
                  \<and> \<not> (bid < 1 \<or> bid > n \<or> bid \<in> seen)")
    case True
    then obtain kvs bid where h: "item = JObj kvs"
        "py_int B (dict_get kvs (ustr ''id'') JNull) = Some bid" "1 \<le> bid" "bid \<le> n" "bid \<notin> seen"
      by force
    have run: "scan_items B n items (insert bid seen, out @ [verdict_of B bid kvs]) = (seen', out')"
      using Cons.prems(1) scan_items_accept[OF h] by simp
    have ids: "set (map vid (out @ [verdict_of B bid kvs])) = insert bid seen"
      using Cons.prems(2) by auto
    note ih = Cons.IH[OF run ids]
    show ?thesis
    proof (cases "i = bid")
      case True
      have "filter (\<lambda>v. vid v = i) out = []"
        using Cons.prems(2) h(5) True by (auto simp: filter_empty_conv)
      then show ?thesis
        using ih True h first_entry_hit[OF h(1), of B i items] by simp
    next
      case False
      then have "item_id B item \<noteq> Some i"
        using h by simp
      then show ?thesis
        using ih False first_entry_miss[of B item i items] by simp
    qed
  next
    case False
    then have run: "scan_items B n items (seen, out) = (seen', out')"
      using Cons.prems(1) scan_items_skip by metis
    note ih = Cons.IH[OF run Cons.prems(2)]
    show ?thesis
    proof (cases "i \<in> seen \<or> i < 1 \<or> n < i")
      case True
      then show ?thesis using ih by simp
    next
      case nt: False
      have "item_id B item \<noteq> Some i"
      proof
        assume a: "item_id B item = Some i"
        then obtain kvs where "item = JObj kvs"
          by (cases item) simp_all
        with a False nt show False by auto
      qed
      then show ?thesis
        using ih nt first_entry_miss[of B item i items] by simp
    qed
  qed
qed

lemma sort_key_map_eq_upto:
  assumes "distinct (map vid xs)" "set (map vid xs) = {1..n}"
  shows "map vid (sort_key vid xs) = [1..n]"
proof (rule sorted_distinct_set_unique)
  show "sorted (map vid (sort_key vid xs))" by (rule sorted_sort_key)
  show "distinct (map vid (sort_key vid xs))"
    using assms(1) by (simp add: distinct_map)
  show "sorted [1..n]" by simp
  show "distinct [1..n]" by simp
  show "set (map vid (sort_key vid xs)) = set [1..n]"
    using assms(2) by simp
qed

lemma fill_and_sort_ids:
  assumes "set (map vid out) = seen" "distinct (map vid out)" "seen \<subseteq> {1..n}"
  shows "map vid (fill_and_sort n (seen, out)) = [1..n]"
proof -
  let ?ys = "out @ map default_verdict (filter (\<lambda>bid. bid \<notin> seen) [1..n])"
  have "distinct (map vid ?ys)"
    using assms(1,2) by auto
  moreover have "set (map vid ?ys) = {1..n}"
    using assms(1,3) by auto
  ultimately show ?thesis
    unfolding fill_and_sort_def by (simp add: sort_key_map_eq_upto del: map_append)
qed

lemma filter_eq_distinct:
  "distinct xs \<Longrightarrow> filter (\<lambda>b. b = i) xs = (if i \<in> set xs then [i] else [])"
  by (induction xs) (auto simp: filter_empty_conv)

lemma filter_upto_single:
  "filter (\<lambda>b. b = i) [1..n] = (if 1 \<le> i \<and> i \<le> n then [i] else [])" for i n :: int
  using filter_eq_distinct[of "[1..n]" i] by simp

lemma fill_and_sort_filter:
  assumes "1 \<le> i" "i \<le> n" "set (map vid out) = seen"
  shows "filter (\<lambda>v. vid v = i) (fill_and_sort n (seen, out)) =
         filter (\<lambda>v. vid v = i) out @ (if i \<in> seen then [] else [default_verdict i])"
proof -
  have "filter (\<lambda>v. vid v = i) (map default_verdict (filter (\<lambda>bid. bid \<notin> seen) [1..n])) =
        map default_verdict (filter (\<lambda>bid. bid \<notin> seen) (filter (\<lambda>b. b = i) [1..n]))"
    by (simp add: filter_map comp_def conj_commute)
  also have "\<dots> = (if i \<in> seen then [] else [default_verdict i])"
    using assms(1,2) by (simp add: filter_upto_single)
  finally show ?thesis
    unfolding fill_and_sort_def by (simp add: sort_key_stable)
qed

lemma nth_of_filter:
  assumes "map f xs = ys" "k < length ys" "filter (\<lambda>v. f v = ys ! k) xs = [w]"
  shows "xs ! k = w"
proof -
  have "k < length xs" using assms(1,2) by auto
  then have "xs ! k \<in> set xs" by simp
  moreover have "f (xs ! k) = ys ! k"
    using assms(1) \<open>k < length xs\<close> by auto
  ultimately have "xs ! k \<in> set (filter (\<lambda>v. f v = ys ! k) xs)" by simp
  then show ?thesis using assms(3) by simp
qed

lemma upto_nth: "1 \<le> i \<Longrightarrow> i \<le> n \<Longrightarrow> [1..n] ! nat (i - 1) = i"
  by simp


lemma normalize_Inr_nonempty:
  assumes "normalize_filtering_result B data n = Inr out" "out \<noteq> []"
  shows "\<exists>kvs items. data = JObj kvs \<and> map_of kvs (ustr ''filtering'') = Some (JList items) \<and>
           out = fill_and_sort n (scan_items B n items ({}, []))"
proof (cases data)
  case (JObj kvs)
  show ?thesis
  proof (cases "map_of kvs (ustr ''filtering'')")
    case None
    then show ?thesis
      using assms JObj by (simp add: normalize_filtering_result_def split: if_splits)
  next
    case (Some f)
    then show ?thesis
      using assms JObj by (cases f) (simp_all add: normalize_filtering_result_def split: if_splits)
  qed
qed (use assms in \<open>simp_all add: normalize_filtering_result_def split: if_splits bool.splits\<close>)

lemma normalized_entry:
  assumes "1 \<le> i" "i \<le> n"
  shows "filter (\<lambda>v. vid v = i) (fill_and_sort n (scan_items B n items ({}, []))) =
         [case find (\<lambda>item. item_id B item = Some i) items of
            Some (JObj kvs) \<Rightarrow> verdict_of B i kvs
          | _ \<Rightarrow> default_verdict i]"
proof -
  obtain seen' out' where run: "scan_items B n items ({}, []) = (seen', out')"
    by (cases "scan_items B n items ({}, [])")
  have ids: "set (map vid out') = seen'"
    using scan_items_ids[OF run] by simp
  have f1: "filter (\<lambda>v. vid v = i) out' = first_entry B i items"
    using scan_items_filter[OF run, of i] assms by simp
  have "filter (\<lambda>v. vid v = i) out' \<noteq> [] \<longleftrightarrow> i \<in> vid ` set out'"
    by (auto simp: filter_empty_conv)
  then have mem: "i \<in> seen' \<longleftrightarrow> first_entry B i items \<noteq> []"
    using ids f1 by simp
  have "filter (\<lambda>v. vid v = i) (fill_and_sort n (seen', out')) =
        first_entry B i items @ (if first_entry B i items \<noteq> [] then [] else [default_verdict i])"
    using fill_and_sort_filter[OF assms ids] f1 mem by simp
  then show ?thesis
    unfolding run by (simp add: first_entry_def split: option.splits json.splits)
qed

text \<open>What a non-empty result of the normalizer looks like.\<close>

lemma normalized_result:
  assumes "normalize_filtering_result B data n = Inr out" "out \<noteq> []"
  shows "\<exists>kvs items. data = JObj kvs \<and> map_of kvs (ustr ''filtering'') = Some (JList items) \<and>
           1 \<le> n \<and> length out = nat n \<and> map vid out = [1..n] \<and>
           (\<forall>i\<in>{1..n}. out ! nat (i - 1) =
              (case find (\<lambda>item. item_id B item = Some i) items of
                 Some (JObj kvs') \<Rightarrow> verdict_of B i kvs'
               | _ \<Rightarrow> default_verdict i))"
proof -
  obtain kvs items where d: "data = JObj kvs" "map_of kvs (ustr ''filtering'') = Some (JList items)"
      and out: "out = fill_and_sort n (scan_items B n items ({}, []))"
    using normalize_Inr_nonempty[OF assms] by blast
  obtain seen' out' where run: "scan_items B n items ({}, []) = (seen', out')"
    by (cases "scan_items B n items ({}, [])")
  have ids: "map vid out = [1..n]"
    using scan_items_ids[OF run] fill_and_sort_ids[of out' seen' n] out run by simp
  then have len: "length out = nat n"
    using length_map[of vid out] by simp
  have pos: "1 \<le> n"
    using len assms(2) by (cases "1 \<le> n") auto
  have "out ! nat (i - 1) =
          (case find (\<lambda>item. item_id B item = Some i) items of
             Some (JObj kvs') \<Rightarrow> verdict_of B i kvs'
           | _ \<Rightarrow> default_verdict i)" if "i \<in> {1..n}" for i
  proof (rule nth_of_filter[OF ids])
    show "nat (i - 1) < length [1..n]" using that by simp
    show "filter (\<lambda>v. vid v = [1..n] ! nat (i - 1)) out =
          [case find (\<lambda>item. item_id B item = Some i) items of
             Some (JObj kvs') \<Rightarrow> verdict_of B i kvs'
           | _ \<Rightarrow> default_verdict i]"
      using that normalized_entry[of i n B items] out by (simp add: upto_nth)
  qed
  then show ?thesis
    using d ids len pos by blast
qed



section \<open>The batch classifier: one attempt\<close>

declare process_range.simps [simp del] py_range.simps [simp del] bisect_nodes.simps [simp del]

lemma py_index_global_ids:
  assumes "1 \<le> i" "i \<le> int (e - s)"
  shows "py_index [s + 1 ..< e + 1] (i - 1) = Some (s + nat i)"
proof -
  have "nat (i - 1) < e - s" using assms by linarith
  then have "[s + 1 ..< e + 1] ! nat (i - 1) = s + 1 + nat (i - 1)"
    by (simp del: upt_Suc)
  also have "\<dots> = s + nat i" using assms(1) by linarith
  finally show ?thesis
    using assms by (simp add: py_index_def Let_def del: upt_Suc)
qed

lemma record_verdicts_ok:
  assumes "\<forall>v\<in>set vs. 1 \<le> vid v \<and> vid v \<le> int (e - s)" "distinct (map vid vs)"
  shows "\<exists>st'. record_verdicts [s + 1 ..< e + 1] vs st = (None, st') \<and>
           world st' = world st \<and> attempts st' = attempts st \<and>
           (\<forall>g. id2retain st' g =
              (case find (\<lambda>v. s + nat (vid v) = g) vs of
                 Some v \<Rightarrow> Some (retain v) | None \<Rightarrow> id2retain st g)) \<and>
           (\<forall>g. id2reason st' g =
              (case find (\<lambda>v. s + nat (vid v) = g) vs of
                 Some v \<Rightarrow> Some (strip (exclude_reason v)) | None \<Rightarrow> id2reason st g))"
  using assms
proof (induction vs arbitrary: st)
  case Nil
  then show ?case by simp
next
  case (Cons v vs)
  let ?st1 = "st\<lparr>id2retain := (id2retain st)(s + nat (vid v) \<mapsto> retain v),
                  id2reason := (id2reason st)(s + nat (vid v) \<mapsto> strip (exclude_reason v))\<rparr>"
  have idx: "py_index [s + 1 ..< e + 1] (vid v - 1) = Some (s + nat (vid v))"
    using Cons.prems(1) by (intro py_index_global_ids) simp_all
  have step: "record_verdicts [s + 1 ..< e + 1] (v # vs) st = record_verdicts [s + 1 ..< e + 1] vs ?st1"
    using idx by (simp del: upt_Suc)
  obtain st' where st': "record_verdicts [s + 1 ..< e + 1] vs ?st1 = (None, st')"
      "world st' = world ?st1" "attempts st' = attempts ?st1"
      "\<And>g. id2retain st' g =
              (case find (\<lambda>v. s + nat (vid v) = g) vs of
                 Some v \<Rightarrow> Some (retain v) | None \<Rightarrow> id2retain ?st1 g)"
      "\<And>g. id2reason st' g =
              (case find (\<lambda>v. s + nat (vid v) = g) vs of
                 Some v \<Rightarrow> Some (strip (exclude_reason v)) | None \<Rightarrow> id2reason ?st1 g)"
    using Cons.IH[of ?st1] Cons.prems by auto
  have fresh: "find (\<lambda>w. s + nat (vid w) = s + nat (vid v)) vs = None"
  proof -
    have nin: "vid v \<notin> set (map vid vs)"
      using Cons.prems(2) by simp
    have "nat (vid w) \<noteq> nat (vid v)" if "w \<in> set vs" for w
    proof
      assume eq: "nat (vid w) = nat (vid v)"
      have "0 \<le> vid w" "0 \<le> vid v" using Cons.prems(1) that by auto
      then have "vid w = vid v" using eq by (simp add: eq_nat_nat_iff)
      moreover have "vid w \<in> set (map vid vs)" using that by simp
      ultimately show False using nin by simp
    qed
    then show ?thesis
      by (auto simp: find_None_iff)
  qed
  show ?case
  proof (intro exI[of _ st'] conjI allI)
    show "record_verdicts [s + 1 ..< e + 1] (v # vs) st = (None, st')"
      using step st'(1) by simp
    show "world st' = world st" using st'(2) by simp
    show "attempts st' = attempts st" using st'(3) by simp
    show "id2retain st' g =
              (case find (\<lambda>v. s + nat (vid v) = g) (v # vs) of
                 Some v \<Rightarrow> Some (retain v) | None \<Rightarrow> id2retain st g)" for g
      using st'(4)[of g] fresh by (cases "s + nat (vid v) = g") (auto split: option.splits)
    show "id2reason st' g =
              (case find (\<lambda>v. s + nat (vid v) = g) (v # vs) of
                 Some v \<Rightarrow> Some (strip (exclude_reason v)) | None \<Rightarrow> id2reason st g)" for g
      using st'(5)[of g] fresh by (cases "s + nat (vid v) = g") (auto split: option.splits)
  qed
qed

lemma find_by_vid:
  assumes "map vid vs = [1..int n]" "s < g" "g \<le> s + n"
  shows "find (\<lambda>v. s + nat (vid v) = g) vs = Some (vs ! (g - s - 1))"
proof -
  let ?k = "g - s - 1"
  have len: "length vs = n" using assms(1) length_map[of vid vs] by simp
  have k: "?k < length vs" using assms(2,3) len by linarith
  have vidk: "vid (vs ! j) = int j + 1" if "j < length vs" for j
  proof -
    have "vid (vs ! j) = map vid vs ! j" using that by simp
    also have "\<dots> = 1 + int j" using that len assms(1) by simp
    finally show ?thesis by simp
  qed
  have "\<exists>i<length vs. s + nat (vid (vs ! i)) = g \<and> vs ! (g - s - 1) = vs ! i \<and>
          (\<forall>j<i. \<not> s + nat (vid (vs ! j)) = g)"
  proof (intro exI[of _ ?k] conjI allI impI)
    show "?k < length vs" by (rule k)
    show "s + nat (vid (vs ! ?k)) = g" using vidk[OF k] assms(2) by linarith
    show "vs ! (g - s - 1) = vs ! ?k" by simp
    show "\<not> s + nat (vid (vs ! j)) = g" if "j < ?k" for j
      using vidk[of j] that k by linarith
  qed
  then show ?thesis
    by (simp add: find_Some_iff)
qed

lemma find_by_vid_out:
  assumes "map vid vs = [1..int n]" "\<not> (s < g \<and> g \<le> s + n)"
  shows "find (\<lambda>v. s + nat (vid v) = g) vs = None"
proof -
  have "1 \<le> vid v \<and> vid v \<le> int n" if "v \<in> set vs" for v
  proof -
    have "vid v \<in> set (map vid vs)" using that by simp
    then show ?thesis using assms(1) by simp
  qed
  then have "s + nat (vid v) \<noteq> g" if "v \<in> set vs" for v
  proof -
    have "1 \<le> vid v" "vid v \<le> int n" using that \<open>\<And>v. v \<in> set vs \<Longrightarrow> 1 \<le> vid v \<and> vid v \<le> int n\<close> by auto
    then have "s < s + nat (vid v)" "s + nat (vid v) \<le> s + n" by linarith+
    then show ?thesis using assms(2) by blast
  qed
  then show ?thesis by (auto simp: find_None_iff)
qed

lemma wrote_batch_frame [simp]:
  "wrote_batch s n vs (st\<lparr>world := w, attempts := a\<rparr>) st' = wrote_batch s n vs st st'"
  by (simp add: wrote_batch_def)

lemma record_normalized:
  assumes "map vid vs = [1..int n]" "n \<le> e - s"
  shows "\<exists>st'. record_verdicts [s + 1 ..< e + 1] vs st = (None, st') \<and>
           world st' = world st \<and> attempts st' = attempts st \<and> wrote_batch s n vs st st'"
proof -
  have rng: "\<forall>v\<in>set vs. 1 \<le> vid v \<and> vid v \<le> int (e - s)"
  proof
    fix v assume "v \<in> set vs"
    then have "vid v \<in> set (map vid vs)" by simp
    then show "1 \<le> vid v \<and> vid v \<le> int (e - s)"
      using assms by simp
  qed
  have dist: "distinct (map vid vs)"
    using assms(1) by simp
  obtain st' where st': "record_verdicts [s + 1 ..< e + 1] vs st = (None, st')"
      "world st' = world st" "attempts st' = attempts st"
      "\<And>g. id2retain st' g =
              (case find (\<lambda>v. s + nat (vid v) = g) vs of
                 Some v \<Rightarrow> Some (retain v) | None \<Rightarrow> id2retain st g)"
      "\<And>g. id2reason st' g =
              (case find (\<lambda>v. s + nat (vid v) = g) vs of
                 Some v \<Rightarrow> Some (strip (exclude_reason v)) | None \<Rightarrow> id2reason st g)"
    using record_verdicts_ok[OF rng dist, of st] by blast
  have "id2retain st' g =
          (if s < g \<and> g \<le> s + n then Some (retain (vs ! (g - s - 1))) else id2retain st g)" for g
    using st'(4)[of g] find_by_vid[OF assms(1), of s g] find_by_vid_out[OF assms(1), of s g]
    by (cases "s < g \<and> g \<le> s + n") auto
  moreover have "id2reason st' g =
          (if s < g \<and> g \<le> s + n then Some (strip (exclude_reason (vs ! (g - s - 1))))
           else id2reason st g)" for g
    using st'(5)[of g] find_by_vid[OF assms(1), of s g] find_by_vid_out[OF assms(1), of s g]
    by (cases "s < g \<and> g \<le> s + n") auto
  ultimately have "wrote_batch s n vs st st'"
    unfolding wrote_batch_def by blast
  then show ?thesis
    using st'(1-3) by blast
qed

lemma normalize_nonempty_ids:
  assumes "normalize_filtering_result B data (int n) = Inr vs" "vs \<noteq> []"
  shows "map vid vs = [1..int n]" "0 < n"
  using normalized_result[OF assms] by auto

text \<open>An attempt whose response the normalizer accepts returns, with the verdicts written.\<close>

lemma attempt_loop_accept:
  assumes "call (world st) batch_items = (Inr data, w')"
    "normalize_filtering_result B data (int n) = Inr vs" "vs \<noteq> []" "n \<le> e - s"
  shows "\<exists>st'. attempt_loop B call batch_items [s + 1 ..< e + 1] n (Suc k) last_err st = (True, last_err, st') \<and>
           world st' = w' \<and> attempts st' = Suc (attempts st) \<and> wrote_batch s n vs st st'"
proof -
  let ?st1 = "st\<lparr>world := w', attempts := Suc (attempts st)\<rparr>"
  obtain st' where st': "record_verdicts [s + 1 ..< e + 1] vs ?st1 = (None, st')"
      "world st' = world ?st1" "attempts st' = attempts ?st1" "wrote_batch s n vs ?st1 st'"
    using record_normalized[OF normalize_nonempty_ids(1)[OF assms(2,3)] assms(4), of ?st1] by blast
  have "attempt_loop B call batch_items [s + 1 ..< e + 1] n (Suc k) last_err st = (True, last_err, st')"
    using assms(1-3) st'(1) by (simp del: upt_Suc)
  then show ?thesis
    using st'(2-4) by simp
qed

text \<open>An attempt whose response is unusable leaves the dicts as they are.\<close>

lemma attempt_loop_reject:
  assumes "unusable B (fst (call (world st) batch_items)) n"
  shows "\<exists>e. attempt_loop B call batch_items gids n (Suc k) last_err st =
           attempt_loop B call batch_items gids n k (Some e)
             (st\<lparr>world := snd (call (world st) batch_items), attempts := Suc (attempts st)\<rparr>)"
proof (cases "call (world st) batch_items")
  case (Pair r w')
  show ?thesis
  proof (cases r)
    case (Inl e)
    then show ?thesis using Pair by (intro exI[of _ e]) simp
  next
    case (Inr data)
    then show ?thesis
      using Pair assms by (cases "normalize_filtering_result B data (int n)") (auto simp: unusable_def)
  qed
qed

lemma attempt_loop_step:
  assumes "n \<le> e - s"
  shows "(\<exists>vs st'. attempt_loop B call batch_items [s + 1 ..< e + 1] n (Suc k) last_err st = (True, last_err, st') \<and>
            map vid vs = [1..int n] \<and> 0 < n \<and> attempts st' = Suc (attempts st) \<and>
            wrote_batch s n vs st st') \<or>
         (\<exists>e'. attempt_loop B call batch_items [s + 1 ..< e + 1] n (Suc k) last_err st =
            attempt_loop B call batch_items [s + 1 ..< e + 1] n k (Some e')
              (st\<lparr>world := snd (call (world st) batch_items), attempts := Suc (attempts st)\<rparr>))"
proof (cases "unusable B (fst (call (world st) batch_items)) n")
  case True
  then show ?thesis using attempt_loop_reject by blast
next
  case False
  then obtain data w' vs where h: "call (world st) batch_items = (Inr data, w')"
      "normalize_filtering_result B data (int n) = Inr vs" "vs \<noteq> []"
    by (cases "call (world st) batch_items")
       (auto simp: unusable_def split: sum.splits)
  obtain st' where "attempt_loop B call batch_items [s + 1 ..< e + 1] n (Suc k) last_err st = (True, last_err, st')"
     "attempts st' = Suc (attempts st)" "wrote_batch s n vs st st'"
    using attempt_loop_accept[of call st batch_items, OF h assms] by blast
  then show ?thesis
    using normalize_nonempty_ids[OF h(2,3)] by blast
qed

text \<open>What the loop of attempts can do: it returns after writing a verdict for every id of
  the batch, or it gives up with the dicts untouched; it makes at most \<open>k\<close> calls.\<close>

lemma attempt_loop_outcome:
  assumes "n \<le> e - s"
  shows "\<exists>ret le st'. attempt_loop B call batch_items [s + 1 ..< e + 1] n k last_err st = (ret, le, st') \<and>
           attempts st' \<le> attempts st + k \<and>
           (if ret then (\<exists>vs. map vid vs = [1..int n] \<and> 0 < n \<and> wrote_batch s n vs st st')
            else id2retain st' = id2retain st \<and> id2reason st' = id2reason st)"
proof (induction k arbitrary: last_err st)
  case 0
  show ?case by auto
next
  case (Suc k)
  let ?st1 = "st\<lparr>world := snd (call (world st) batch_items), attempts := Suc (attempts st)\<rparr>"
  from attempt_loop_step[OF assms, of B call batch_items k last_err st]
  consider (ok) vs st' where
      "attempt_loop B call batch_items [s + 1 ..< e + 1] n (Suc k) last_err st = (True, last_err, st')"
      "map vid vs = [1..int n]" "0 < n" "attempts st' = Suc (attempts st)" "wrote_batch s n vs st st'"
    | (again) e' where
      "attempt_loop B call batch_items [s + 1 ..< e + 1] n (Suc k) last_err st =
       attempt_loop B call batch_items [s + 1 ..< e + 1] n k (Some e') ?st1"
    by blast
  then show ?case
  proof cases
    case ok
    have "attempts st' \<le> attempts st + Suc k" using ok(4) by simp
    moreover have "\<exists>vs. map vid vs = [1..int n] \<and> 0 < n \<and> wrote_batch s n vs st st'"
      using ok(2,3,5) by blast
    ultimately show ?thesis
      using ok(1) by (intro exI[of _ True] exI[of _ last_err] exI[of _ st']) (simp del: upt_Suc)
  next
    case again
    obtain ret le st' where ih:
      "attempt_loop B call batch_items [s + 1 ..< e + 1] n k (Some e') ?st1 = (ret, le, st')"
      "attempts st' \<le> attempts ?st1 + k"
      "if ret then (\<exists>vs. map vid vs = [1..int n] \<and> 0 < n \<and> wrote_batch s n vs ?st1 st')
       else id2retain st' = id2retain ?st1 \<and> id2reason st' = id2reason ?st1"
      using Suc.IH[of "Some e'" ?st1] by blast
    have "attempts st' \<le> attempts st + Suc k" using ih(2) by simp
    moreover have "if ret then (\<exists>vs. map vid vs = [1..int n] \<and> 0 < n \<and> wrote_batch s n vs st st')
       else id2retain st' = id2retain st \<and> id2reason st' = id2reason st"
      using ih(3) by (cases ret) simp_all
    ultimately show ?thesis
      using again ih(1) by (intro exI[of _ ret] exI[of _ le] exI[of _ st']) (simp del: upt_Suc)
  qed
qed

section \<open>The batch classifier: bisection\<close>

lemma length_py_slice: "length (py_slice xs s e) = min (e - s) (length xs - s)"
  by (simp add: py_slice_def)

lemma py_slice_le: "length (py_slice xs s e) \<le> e - s"
  by (simp add: py_slice_def)

lemma py_slice_first_half:
  assumes "n = length (py_slice xs s e)"
  shows "length (py_slice xs s (s + n div 2)) = n div 2"
proof -
  have "n \<le> length xs - s" using assms by (simp add: length_py_slice)
  moreover have "n div 2 \<le> n" by simp
  ultimately show ?thesis by (simp add: length_py_slice)
qed

lemma py_slice_second_half:
  assumes "n = length (py_slice xs s e)"
  shows "length (py_slice xs (s + n div 2) e) = n - n div 2"
proof -
  have "length (py_slice xs (s + n div 2) e) = min (e - s - n div 2) (length xs - s - n div 2)"
    by (simp add: length_py_slice)
  also have "\<dots> = min (e - s) (length xs - s) - n div 2"
    by (rule min_diff)
  finally show ?thesis
    using assms by (simp add: length_py_slice)
qed

lemma half_less: "1 < n \<Longrightarrow> n div 2 < n \<and> n - n div 2 < n \<and> 0 < n div 2" for n :: nat
  by (cases n) (auto simp: Suc_le_eq)

lemma process_range_unfold:
  "process_range B call R codes s e st =
     (if length (py_slice codes s e) = 0 then st
      else case attempt_loop B call (batch_items_of (py_slice codes s e)) [s + 1 ..< e + 1]
                  (length (py_slice codes s e)) (nat R) None st of
             (returned, last_err, st') \<Rightarrow>
               if returned then st'
               else if length (py_slice codes s e) = 1 then
                 st'\<lparr>id2retain := (id2retain st')([s + 1 ..< e + 1] ! 0 \<mapsto> False),
                     id2reason := (id2reason st')([s + 1 ..< e + 1] ! 0 \<mapsto> single_failure_reason B last_err)\<rparr>
               else
                 process_range B call R codes (s + length (py_slice codes s e) div 2) e
                   (process_range B call R codes s (s + length (py_slice codes s e) div 2) st'))"
  by (subst process_range.simps) (simp add: Let_def split: prod.splits del: upt_Suc)

lemma global_ids_first:
  assumes "length (py_slice codes s e) = 1"
  shows "[s + 1 ..< e + 1] ! 0 = s + 1"
proof -
  have "s < e" using py_slice_le[of codes s e] assms by linarith
  then show ?thesis by (simp del: upt_Suc)
qed

lemma process_range_rule:
  fixes P :: "nat \<Rightarrow> nat \<Rightarrow> 'w fstate \<Rightarrow> 'w fstate \<Rightarrow> bool"
  assumes empty: "\<And>s st. P s 0 st st"
    and accept: "\<And>s e st le st1. 0 < length (py_slice codes s e) \<Longrightarrow>
        attempt_loop B call (batch_items_of (py_slice codes s e)) [s + 1 ..< e + 1]
          (length (py_slice codes s e)) (nat R) None st = (True, le, st1) \<Longrightarrow>
        P s (length (py_slice codes s e)) st st1"
    and single: "\<And>s e st le st1. length (py_slice codes s e) = 1 \<Longrightarrow>
        attempt_loop B call (batch_items_of (py_slice codes s e)) [s + 1 ..< e + 1]
          (length (py_slice codes s e)) (nat R) None st = (False, le, st1) \<Longrightarrow>
        P s 1 st (st1\<lparr>id2retain := (id2retain st1)(s + 1 \<mapsto> False),
                       id2reason := (id2reason st1)(s + 1 \<mapsto> single_failure_reason B le)\<rparr>)"
    and split: "\<And>s e st le st1 st2 st3 n. n = length (py_slice codes s e) \<Longrightarrow> 1 < n \<Longrightarrow>
        attempt_loop B call (batch_items_of (py_slice codes s e)) [s + 1 ..< e + 1]
          n (nat R) None st = (False, le, st1) \<Longrightarrow>
        P s (n div 2) st1 st2 \<Longrightarrow> P (s + n div 2) (n - n div 2) st2 st3 \<Longrightarrow> P s n st st3"
  shows "P s (length (py_slice codes s e)) st (process_range B call (R :: int) codes s e st)"
proof (induction "length (py_slice codes s e)" arbitrary: s e st rule: less_induct)
  case less
  let ?n = "length (py_slice codes s e)"
  show ?case
  proof (cases "?n = 0")
    case True
    then show ?thesis
      using empty[of s st] by (subst process_range_unfold) simp
  next
    case False
    obtain ret le st1 where att:
      "attempt_loop B call (batch_items_of (py_slice codes s e)) [s + 1 ..< e + 1] ?n (nat R) None st
        = (ret, le, st1)"
      by (cases "attempt_loop B call (batch_items_of (py_slice codes s e)) [s + 1 ..< e + 1] ?n (nat R) None st")
    show ?thesis
    proof (cases ret)
      case True
      have "process_range B call R codes s e st = st1"
        using False att True by (subst process_range_unfold) (simp del: upt_Suc)
      then show ?thesis
        using accept[of s e st le st1] False att True by simp
    next
      case nret: False
      show ?thesis
      proof (cases "?n = 1")
        case True
        have "process_range B call R codes s e st =
              st1\<lparr>id2retain := (id2retain st1)(s + 1 \<mapsto> False),
                  id2reason := (id2reason st1)(s + 1 \<mapsto> single_failure_reason B le)\<rparr>"
          using att nret True global_ids_first[OF True]
          by (subst process_range_unfold) (simp del: upt_Suc)
        then show ?thesis
          using single[of s e st le st1] att nret True by simp
      next
        case nsingle: False
        have big: "1 < ?n" using False nsingle by linarith
        let ?mid = "s + ?n div 2"
        let ?st2 = "process_range B call R codes s ?mid st1"
        let ?st3 = "process_range B call R codes ?mid e ?st2"
        have l1: "length (py_slice codes s ?mid) = ?n div 2"
          by (rule py_slice_first_half) simp
        have l2: "length (py_slice codes ?mid e) = ?n - ?n div 2"
          by (rule py_slice_second_half) simp
        have p1: "P s (?n div 2) st1 ?st2"
          using less(1)[of s ?mid st1] l1 half_less[OF big] by simp
        have p2: "P ?mid (?n - ?n div 2) ?st2 ?st3"
          using less(1)[of ?mid e ?st2] l2 half_less[OF big] by simp
        have "process_range B call R codes s e st = ?st3"
          using att nret False nsingle by (subst process_range_unfold) (simp del: upt_Suc)
        then show ?thesis
          using split[OF refl big _ p1 p2, of st le] att nret by simp
      qed
    qed
  qed
qed

lemma covers_refl: "covers s 0 st st"
  by (auto simp: covers_def)

lemma wrote_batch_covers: "wrote_batch s n vs st st' \<Longrightarrow> covers s n st st'"
  by (simp add: wrote_batch_def covers_def)

lemma covers_same_maps:
  "id2retain st1 = id2retain st \<Longrightarrow> id2reason st1 = id2reason st \<Longrightarrow> covers s n st1 st2 \<Longrightarrow>
   covers s n st st2"
  by (simp add: covers_def)

lemma covers_trans:
  assumes "covers s n1 st st1" "covers (s + n1) n2 st1 st2"
  shows "covers s (n1 + n2) st st2"
  unfolding covers_def
proof (intro allI)
  fix g
  have a: "if s < g \<and> g \<le> s + n1
          then id2retain st1 g \<noteq> None \<and> id2reason st1 g \<noteq> None
          else id2retain st1 g = id2retain st g \<and> id2reason st1 g = id2reason st g"
    using assms(1) unfolding covers_def by blast
  have b: "if s + n1 < g \<and> g \<le> s + n1 + n2
          then id2retain st2 g \<noteq> None \<and> id2reason st2 g \<noteq> None
          else id2retain st2 g = id2retain st1 g \<and> id2reason st2 g = id2reason st1 g"
    using assms(2) unfolding covers_def by blast
  consider "g \<le> s" | "s < g \<and> g \<le> s + n1" | "s + n1 < g \<and> g \<le> s + n1 + n2" | "s + n1 + n2 < g"
    by linarith
  then show "if s < g \<and> g \<le> s + (n1 + n2)
          then id2retain st2 g \<noteq> None \<and> id2reason st2 g \<noteq> None
          else id2retain st2 g = id2retain st g \<and> id2reason st2 g = id2reason st g"
  proof cases
    case 1 then show ?thesis using a b by simp
  next
    case 2 then show ?thesis using a b by simp
  next
    case 3 then show ?thesis using a b by simp
  next
    case 4 then show ?thesis using a b by simp
  qed
qed

lemma covers_single:
  "covers s 1 st (st\<lparr>id2retain := (id2retain st)(s + 1 \<mapsto> b), id2reason := (id2reason st)(s + 1 \<mapsto> r)\<rparr>)"
  by (auto simp: covers_def)

lemma bisect_nodes_unfold:
  "1 < n \<Longrightarrow> bisect_nodes n = 1 + bisect_nodes (n div 2) + bisect_nodes (n - n div 2)"
  by (subst bisect_nodes.simps) simp

lemma bisect_nodes_0 [simp]: "bisect_nodes 0 = 0"
  by (subst bisect_nodes.simps) simp

lemma bisect_nodes_1 [simp]: "bisect_nodes (Suc 0) = 1"
  by (subst bisect_nodes.simps) simp

lemma bisect_nodes_eq: "bisect_nodes n = 2 * n - 1"
proof (induction n rule: less_induct)
  case (less n)
  show ?case
  proof (cases "1 < n")
    case True
    note h = half_less[OF True]
    define a b where "a = n div 2" and "b = n - n div 2"
    have ab: "a + b = n" "0 < a" "0 < b"
      using h by (simp_all add: a_def b_def)
    have "bisect_nodes a = 2 * a - 1" "bisect_nodes b = 2 * b - 1"
      using less h by (simp_all add: a_def b_def)
    moreover have "bisect_nodes n = 1 + bisect_nodes a + bisect_nodes b"
      using bisect_nodes_unfold[OF True] by (simp add: a_def b_def)
    ultimately show ?thesis
      using ab by linarith
  next
    case False
    then have "n = 0 \<or> n = Suc 0" by linarith
    then show ?thesis by auto
  qed
qed

lemma bisect_nodes_pos: "0 < n \<Longrightarrow> 1 \<le> bisect_nodes n"
  by (simp add: bisect_nodes_eq)

text \<open>Whatever the calls do, \<open>process_range\<close> leaves a verdict at each id of its range,
  touches no other key, and makes a bounded number of calls.\<close>

lemma process_range_general:
  "attempts (process_range B call R codes s e st) \<le>
     attempts st + nat R * bisect_nodes (length (py_slice codes s e)) \<and>
   covers s (length (py_slice codes s e)) st (process_range B call R codes s e st)"
proof (rule process_range_rule[where P = "\<lambda>s n st st'.
          attempts st' \<le> attempts st + nat R * bisect_nodes n \<and> covers s n st st'"], goal_cases)
  case (1 s st)
  show ?case by (simp add: covers_refl)
next
  case (2 s e st le st1)
  let ?n = "length (py_slice codes s e)"
  from attempt_loop_outcome[OF py_slice_le[of codes s e], of B call "batch_items_of (py_slice codes s e)" "nat R" None st] 2(2)
  obtain vs where h: "attempts st1 \<le> attempts st + nat R" "wrote_batch s ?n vs st st1"
    by auto
  have "nat R \<le> nat R * bisect_nodes ?n"
    using bisect_nodes_pos[OF 2(1)] by simp
  then have "attempts st1 \<le> attempts st + nat R * bisect_nodes ?n"
    using h(1) by linarith
  then show ?case
    using wrote_batch_covers[OF h(2)] by simp
next
  case (3 s e st le st1)
  from attempt_loop_outcome[OF py_slice_le[of codes s e], of B call "batch_items_of (py_slice codes s e)" "nat R" None st] 3(2)
  have h: "attempts st1 \<le> attempts st + nat R" "id2retain st1 = id2retain st" "id2reason st1 = id2reason st"
    by auto
  let ?st2 = "st1\<lparr>id2retain := (id2retain st1)(s + 1 \<mapsto> False),
                  id2reason := (id2reason st1)(s + 1 \<mapsto> single_failure_reason B le)\<rparr>"
  have "covers s 1 st1 ?st2" by (rule covers_single)
  then have "covers s 1 st ?st2" using h(2,3) covers_same_maps by blast
  then show ?case using h(1) by simp
next
  case (4 s e st le st1 st2 st3 n)
  from attempt_loop_outcome[OF py_slice_le[of codes s e], of B call "batch_items_of (py_slice codes s e)" "nat R" None st] 4(1,3)
  have h: "attempts st1 \<le> attempts st + nat R" "id2retain st1 = id2retain st" "id2reason st1 = id2reason st"
    by auto
  note hl = half_less[OF 4(2)]
  have "covers s (n div 2 + (n - n div 2)) st1 st3"
    using 4(4,5) covers_trans by blast
  then have c: "covers s n st st3"
    using hl h(2,3) covers_same_maps by fastforce
  have "attempts st3 \<le> attempts st + nat R + nat R * bisect_nodes (n div 2) + nat R * bisect_nodes (n - n div 2)"
    using 4(4,5) h(1) by linarith
  also have "\<dots> = attempts st + nat R * bisect_nodes n"
    by (simp add: bisect_nodes_unfold[OF 4(2)] algebra_simps)
  finally show ?case using c by simp
qed

section \<open>Completeness and termination of the batch classifier\<close>

lemma batches_cover:
  assumes "0 < bs"
  shows "s0 \<le> length codes \<Longrightarrow>
         covers s0 (length codes - s0) st
           (fold (\<lambda>s st. process_range B call R codes s (min (s + bs) (length codes)) st)
              (py_range s0 (length codes) bs) st)"
proof (induction "length codes - s0" arbitrary: s0 st rule: less_induct)
  case less
  let ?total = "length codes"
  let ?step = "\<lambda>s st. process_range B call R codes s (min (s + bs) ?total) st"
  show ?case
  proof (cases "s0 = ?total")
    case True
    then show ?thesis
      by (subst py_range.simps) (simp add: covers_refl)
  next
    case False
    then have lt: "s0 < ?total" using less.prems by simp
    let ?e = "min (s0 + bs) ?total"
    let ?st1 = "process_range B call R codes s0 ?e st"
    have unf: "fold ?step (py_range s0 ?total bs) st = fold ?step (py_range (s0 + bs) ?total bs) ?st1"
      using lt assms by (subst py_range.simps) simp
    have n: "length (py_slice codes s0 ?e) = ?e - s0"
      by (simp add: length_py_slice)
    have c1: "covers s0 (?e - s0) st ?st1"
      using process_range_general[of B call R codes s0 ?e st] n by simp
    show ?thesis
    proof (cases "?total \<le> s0 + bs")
      case True
      then have "py_range (s0 + bs) ?total bs = []"
        by (subst py_range.simps) simp
      moreover have "?e - s0 = ?total - s0" using True by simp
      ultimately show ?thesis using unf c1 by simp
    next
      case nt: False
      then have e: "?e = s0 + bs" by simp
      have c2: "covers (s0 + bs) (?total - (s0 + bs)) ?st1 (fold ?step (py_range (s0 + bs) ?total bs) ?st1)"
        using less.hyps[of "s0 + bs" ?st1] nt assms lt by simp
      have c1': "covers s0 bs st ?st1"
        using c1 e by simp
      have "covers s0 (bs + (?total - (s0 + bs))) st (fold ?step (py_range (s0 + bs) ?total bs) ?st1)"
        by (rule covers_trans[OF c1' c2])
      moreover have "bs + (?total - (s0 + bs)) = ?total - s0" using nt by simp
      ultimately show ?thesis unfolding unf by simp
    qed
  qed
qed

text \<open>
  C1 (completeness). For every list of codes, every batch size \<open>B \<ge> 1\<close>, every retry
  count and every behaviour of the oracle call (any function of the world's state: it may
  raise, or return any data, at any attempt), \<open>filter_unique_codes_with_batching\<close> returns,
  and the keys of \<open>id2retain\<close> and of \<open>id2reason\<close> are exactly the global ids \<open>1, \<dots>, N\<close>.
\<close>

theorem classifier_complete:
  assumes "0 < batch_size"
  shows "\<exists>st. filter_unique_codes_with_batching B call unique_codes batch_size max_retries w
              = Inr (st, id2code_of unique_codes) \<and>
           dom (id2retain st) = {1 .. length unique_codes} \<and>
           dom (id2reason st) = {1 .. length unique_codes}"
proof -
  let ?init = "\<lparr>id2retain = Map.empty, id2reason = Map.empty, world = w, attempts = 0\<rparr>"
  let ?final = "fold (\<lambda>s st. process_range B call max_retries unique_codes s
                              (min (s + nat batch_size) (length unique_codes)) st)
               (py_range 0 (length unique_codes) (nat batch_size)) ?init"
  have run: "filter_unique_codes_with_batching B call unique_codes batch_size max_retries w
              = Inr (?final, id2code_of unique_codes)"
    using assms by (simp add: filter_unique_codes_with_batching_def Let_def)
  have "covers 0 (length unique_codes - 0) ?init ?final"
    using batches_cover[where bs = "nat batch_size" and ?s0.0 = 0 and codes = unique_codes
        and st = ?init and B = B and call = call and R = max_retries] assms by simp
  then have c: "\<And>g. if 0 < g \<and> g \<le> length unique_codes
             then id2retain ?final g \<noteq> None \<and> id2reason ?final g \<noteq> None
             else id2retain ?final g = None \<and> id2reason ?final g = None"
    unfolding covers_def by simp
  have "dom (id2retain ?final) = {1 .. length unique_codes}"
  proof (rule set_eqI)
    fix g show "g \<in> dom (id2retain ?final) \<longleftrightarrow> g \<in> {1 .. length unique_codes}"
      using c[of g] by (cases "0 < g \<and> g \<le> length unique_codes") (auto simp: dom_def)
  qed
  moreover have "dom (id2reason ?final) = {1 .. length unique_codes}"
  proof (rule set_eqI)
    fix g show "g \<in> dom (id2reason ?final) \<longleftrightarrow> g \<in> {1 .. length unique_codes}"
      using c[of g] by (cases "0 < g \<and> g \<le> length unique_codes") (auto simp: dom_def)
  qed
  ultimately show ?thesis
    using run by blast
qed

theorem classifier_complete_witness:
  "(0::int) < 2 \<and>
   (\<exists>st. filter_unique_codes_with_batching example_builtins failing_call example_codes 2 2 ()
            = Inr (st, id2code_of example_codes) \<and>
          dom (id2retain st) = {1 .. 3} \<and> dom (id2reason st) = {1 .. 3})"
proof -
  have pos: "(0::int) < 2" by simp
  have len: "length example_codes = 3" by (simp add: example_codes_def)
  show ?thesis
    using classifier_complete[OF pos, of example_builtins failing_call example_codes 2 "()"] len
    by simp
qed

text \<open>
  C4 (bisection termination). \<open>process_range\<close> is a total function: its recursion is on
  the two halves \<open>[start, start + n div 2)\<close> and \<open>[start + n div 2, end)\<close> of a batch of
  \<open>n > 1\<close> items, both strictly shorter than \<open>n\<close>. Whatever the oracle does, the number of
  oracle calls it makes is at most \<open>max_retries_each_batch\<close> times the number of nodes of
  the bisection tree on \<open>n\<close> items, which is \<open>2 n - 1\<close>.
\<close>

theorem bisection_terminates:
  "attempts (process_range B call max_retries unique_codes start_idx end_idx st) \<le>
     attempts st + nat max_retries * bisect_nodes (length (py_slice unique_codes start_idx end_idx)) \<and>
   bisect_nodes (length (py_slice unique_codes start_idx end_idx)) =
     2 * length (py_slice unique_codes start_idx end_idx) - 1 \<and>
   (1 < length (py_slice unique_codes start_idx end_idx) \<longrightarrow>
      length (py_slice unique_codes start_idx
                (start_idx + length (py_slice unique_codes start_idx end_idx) div 2))
        < length (py_slice unique_codes start_idx end_idx) \<and>
      length (py_slice unique_codes
                (start_idx + length (py_slice unique_codes start_idx end_idx) div 2) end_idx)
        < length (py_slice unique_codes start_idx end_idx))"
proof (intro conjI impI)
  let ?n = "length (py_slice unique_codes start_idx end_idx)"
  show "attempts (process_range B call max_retries unique_codes start_idx end_idx st) \<le>
          attempts st + nat max_retries * bisect_nodes ?n"
    using process_range_general by blast
  show "bisect_nodes ?n = 2 * ?n - 1"
    by (rule bisect_nodes_eq)
  show "length (py_slice unique_codes start_idx (start_idx + ?n div 2)) < ?n" if "1 < ?n"
    using py_slice_first_half[OF refl, of unique_codes start_idx end_idx] half_less[OF that] by simp
  show "length (py_slice unique_codes (start_idx + ?n div 2) end_idx) < ?n" if "1 < ?n"
    using py_slice_second_half[OF refl, of unique_codes start_idx end_idx] half_less[OF that] by simp
qed

theorem bisection_terminates_witness:
  "attempts (process_range example_builtins failing_call 2 example_codes 0 3
       \<lparr>id2retain = Map.empty, id2reason = Map.empty, world = (), attempts = 0\<rparr>) \<le> 0 + 2 * 5 \<and>
   1 < length (py_slice example_codes 0 3) \<and>
   length (py_slice example_codes 0 (0 + length (py_slice example_codes 0 3) div 2)) < 3 \<and>
   length (py_slice example_codes (0 + length (py_slice example_codes 0 3) div 2) 3) < 3"
proof -
  have len: "length (py_slice example_codes 0 3) = 3"
    by (simp add: example_codes_def py_slice_def)
  show ?thesis
    using bisection_terminates[of example_builtins failing_call 2 example_codes 0 3
        "\<lparr>id2retain = Map.empty, id2reason = Map.empty, world = (), attempts = 0\<rparr>"] len
    by simp
qed

section \<open>Responses without usable entries\<close>

lemma normalize_dict:
  assumes "map_of kvs (ustr ''filtering'') = Some (JList items)"
  shows "normalize_filtering_result B (JObj kvs) n = Inr (fill_and_sort n (scan_items B n items ({}, [])))"
proof -
  have "kvs \<noteq> []" using assms by auto
  then show ?thesis
    using assms by (simp add: normalize_filtering_result_def)
qed

lemma normalized_list:
  fixes n :: int
  defines "L \<equiv> \<lambda>B items. fill_and_sort n (scan_items B n items ({}, []))"
  shows "map vid (L B items) = [1..n]"
    and "i \<in> {1..n} \<Longrightarrow> L B items ! nat (i - 1) =
          (case find (\<lambda>item. item_id B item = Some i) items of
             Some (JObj kvs') \<Rightarrow> verdict_of B i kvs'
           | _ \<Rightarrow> default_verdict i)"
proof -
  obtain seen' out' where run: "scan_items B n items ({}, []) = (seen', out')"
    by (cases "scan_items B n items ({}, [])")
  show ids: "map vid (L B items) = [1..n]"
    using scan_items_ids[OF run] fill_and_sort_ids[of out' seen' n] run by (simp add: L_def)
  show "L B items ! nat (i - 1) =
          (case find (\<lambda>item. item_id B item = Some i) items of
             Some (JObj kvs') \<Rightarrow> verdict_of B i kvs'
           | _ \<Rightarrow> default_verdict i)" if "i \<in> {1..n}"
  proof (rule nth_of_filter[OF ids])
    show "nat (i - 1) < length [1..n]" using that by simp
    show "filter (\<lambda>v. vid v = [1..n] ! nat (i - 1)) (L B items) =
          [case find (\<lambda>item. item_id B item = Some i) items of
             Some (JObj kvs') \<Rightarrow> verdict_of B i kvs'
           | _ \<Rightarrow> default_verdict i]"
      using that normalized_entry[of i n B items] by (simp add: upto_nth L_def)
  qed
qed

lemma normalized_list_eq:
  assumes "\<And>i. 1 \<le> i \<Longrightarrow> i \<le> n \<Longrightarrow>
            (case find (\<lambda>item. item_id B item = Some i) items of
               Some (JObj kvs') \<Rightarrow> verdict_of B i kvs'
             | _ \<Rightarrow> default_verdict i) = f i"
  shows "fill_and_sort n (scan_items B n items ({}, [])) = map f [1..n]"
proof (rule nth_equalityI)
  let ?L = "fill_and_sort n (scan_items B n items ({}, []))"
  have len: "length ?L = length [1..n]"
    using normalized_list(1)[of n B items] length_map[of vid ?L] by simp
  then show "length ?L = length (map f [1..n])" by simp
  fix k assume "k < length ?L"
  then have k: "k < nat n" using len by simp
  define i where "i = int k + 1"
  have i: "1 \<le> i" "i \<le> n" "nat (i - 1) = k" using k by (simp_all add: i_def)
  have "?L ! k = f i"
    using normalized_list(2)[of i n B items] assms[OF i(1,2)] i by simp
  moreover have "map f [1..n] ! k = f i"
    using k by (simp add: i_def add.commute)
  ultimately show "?L ! k = map f [1..n] ! k" by simp
qed

lemma strip_manual_review_reason [simp]: "strip manual_review_reason = manual_review_reason"
  by (simp add: strip_def manual_review_reason_def is_space_def)

lemma find_no_id:
  assumes "\<forall>item\<in>set items. \<forall>j. item_id B item = Some j \<longrightarrow> j < 1 \<or> n < j" "1 \<le> i" "i \<le> n"
  shows "find (\<lambda>item. item_id B item = Some i) items = None"
  using assms by (fastforce simp: find_None_iff)

text \<open>
  C10 (an empty \<open>filtering\<close> list is a success). When the first response for a batch of
  \<open>n \<ge> 1\<close> items is a dict whose \<open>filtering\<close> value is a list with no usable entry (empty,
  or every id missing, unconvertible or outside \<open>[1, n]\<close>), the normalizer returns the
  \<open>n\<close> default verdicts, and \<open>process_range\<close> records them and returns after this one
  oracle call: no retry, no bisection.
\<close>

theorem empty_filtering_is_success:
  assumes "0 < max_retries"
    and "n = length (py_slice unique_codes start_idx end_idx)" and "0 < n"
    and "call (world st) (batch_items_of (py_slice unique_codes start_idx end_idx)) = (Inr (JObj kvs), w')"
    and "map_of kvs (ustr ''filtering'') = Some (JList items)"
    and "\<forall>item\<in>set items. \<forall>j. item_id B item = Some j \<longrightarrow> j < 1 \<or> int n < j"
  shows "normalize_filtering_result B (JObj kvs) (int n) = Inr (map default_verdict [1..int n]) \<and>
         map default_verdict [1..int n] \<noteq> [] \<and>
         attempts (process_range B call max_retries unique_codes start_idx end_idx st) = Suc (attempts st) \<and>
         world (process_range B call max_retries unique_codes start_idx end_idx st) = w' \<and>
         (\<forall>g. id2retain (process_range B call max_retries unique_codes start_idx end_idx st) g =
            (if start_idx < g \<and> g \<le> start_idx + n then Some False else id2retain st g)) \<and>
         (\<forall>g. id2reason (process_range B call max_retries unique_codes start_idx end_idx st) g =
            (if start_idx < g \<and> g \<le> start_idx + n then Some manual_review_reason
             else id2reason st g))"
proof -
  let ?vs = "map default_verdict [1..int n]"
  have norm: "normalize_filtering_result B (JObj kvs) (int n) = Inr ?vs"
    unfolding normalize_dict[OF assms(5)]
    using find_no_id[OF assms(6)] by (subst normalized_list_eq[where f = default_verdict]) simp_all
  have ne: "?vs \<noteq> []" using assms(3) by simp
  obtain k where k: "nat max_retries = Suc k"
    using assms(1) by (cases "nat max_retries") simp_all
  have le: "n \<le> end_idx - start_idx"
    using py_slice_le[of unique_codes start_idx end_idx] assms(2) by simp
  obtain st' where st': "attempt_loop B call (batch_items_of (py_slice unique_codes start_idx end_idx))
        [start_idx + 1 ..< end_idx + 1] n (Suc k) None st = (True, None, st')"
      "world st' = w'" "attempts st' = Suc (attempts st)" "wrote_batch start_idx n ?vs st st'"
    using attempt_loop_accept[of call st _ "JObj kvs" w' B n ?vs end_idx start_idx k None, OF assms(4) norm ne le]
    by blast
  have run: "process_range B call max_retries unique_codes start_idx end_idx st = st'"
    using st'(1) k assms(2,3) by (subst process_range_unfold) (simp del: upt_Suc)
  have nth: "?vs ! (g - start_idx - 1) = default_verdict (int (g - start_idx))"
    if "start_idx < g \<and> g \<le> start_idx + n" for g
  proof -
    have "g - start_idx - 1 < nat (int n)" using that by linarith
    then have "?vs ! (g - start_idx - 1) = default_verdict (1 + int (g - start_idx - 1))"
      by simp
    moreover have "1 + int (g - start_idx - 1) = int (g - start_idx)" using that by linarith
    ultimately show ?thesis by simp
  qed
  have "id2retain st' g = (if start_idx < g \<and> g \<le> start_idx + n then Some False else id2retain st g)" for g
  proof (cases "start_idx < g \<and> g \<le> start_idx + n")
    case True
    have "id2retain st' g = Some (retain (?vs ! (g - start_idx - 1)))"
      using st'(4) True unfolding wrote_batch_def by presburger
    then show ?thesis
      unfolding nth[OF True] using True by (simp add: default_verdict_def)
  next
    case False
    then show ?thesis
      using st'(4) unfolding wrote_batch_def by presburger
  qed
  moreover have "id2reason st' g =
      (if start_idx < g \<and> g \<le> start_idx + n then Some manual_review_reason else id2reason st g)" for g
  proof (cases "start_idx < g \<and> g \<le> start_idx + n")
    case True
    have "id2reason st' g = Some (strip (exclude_reason (?vs ! (g - start_idx - 1))))"
      using st'(4) True unfolding wrote_batch_def by presburger
    then show ?thesis
      unfolding nth[OF True] using True by (simp add: default_verdict_def)
  next
    case False
    then show ?thesis
      using st'(4) unfolding wrote_batch_def by presburger
  qed
  ultimately show ?thesis
    using norm ne run st'(2,3) by simp
qed

theorem empty_filtering_is_success_witness:
  "(0::int) < 2 \<and> 0 < length (py_slice example_codes 0 3) \<and>
   empty_list_call (world empty_state) (batch_items_of (py_slice example_codes 0 3))
     = (Inr (JObj [(ustr ''filtering'', JList [])]), ()) \<and>
   normalize_filtering_result example_builtins (JObj [(ustr ''filtering'', JList [])]) 3
     = Inr (map default_verdict [1..3]) \<and>
   attempts (process_range example_builtins empty_list_call 2 example_codes 0 3 empty_state) = 1 \<and>
   (\<forall>g. id2retain (process_range example_builtins empty_list_call 2 example_codes 0 3 empty_state) g =
      (if 0 < g \<and> g \<le> 3 then Some False else None)) \<and>
   (\<forall>g. id2reason (process_range example_builtins empty_list_call 2 example_codes 0 3 empty_state) g =
      (if 0 < g \<and> g \<le> 3 then Some manual_review_reason else None))"
proof -
  have len: "length (py_slice example_codes 0 3) = 3"
    by (simp add: example_codes_def py_slice_def)
  have call: "empty_list_call (world empty_state) (batch_items_of (py_slice example_codes 0 3))
     = (Inr (JObj [(ustr ''filtering'', JList [])]), ())"
    by (simp add: empty_list_call_def)
  have key: "map_of [(ustr ''filtering'', JList [])] (ustr ''filtering'') = Some (JList [])"
    by simp
  have none: "\<forall>item\<in>set []. \<forall>j. item_id example_builtins item = Some j \<longrightarrow> j < 1 \<or> int 3 < j"
    by simp
  show ?thesis
    using empty_filtering_is_success[of 2 3 example_codes 0 3 empty_list_call empty_state
        "[(ustr ''filtering'', JList [])]" "()" "[]" example_builtins, OF _ len[symmetric] _ call key none]
      len call
    by (simp add: empty_state_def)
qed

section \<open>Isolation of a poison item\<close>

lemma strip_prefix: "\<exists>zs. strip s @ zs = dropWhile is_space s"
proof -
  let ?u = "dropWhile is_space s"
  have "rev (dropWhile is_space (rev ?u)) @ rev (takeWhile is_space (rev ?u)) = rev (rev ?u)"
    unfolding rev_append[symmetric] by simp
  then show ?thesis by (auto simp: strip_def)
qed

lemma strip_no_leading: "dropWhile is_space (strip s) = strip s"
proof (cases "strip s")
  case Nil
  then show ?thesis by simp
next
  case (Cons c cs)
  obtain zs where zs: "strip s @ zs = dropWhile is_space s"
    using strip_prefix by blast
  then have "dropWhile is_space s = c # (cs @ zs)" using Cons by simp
  then have "\<not> is_space c"
    using hd_dropWhile[of is_space s] by (metis list.sel(1) list.simps(3))
  then show ?thesis using Cons by simp
qed

lemma strip_idem [simp]: "strip (strip s) = strip s"
proof -
  have "rev (strip s) = dropWhile is_space (rev (dropWhile is_space s))"
    by (simp add: strip_def)
  then have "dropWhile is_space (rev (strip s)) = rev (strip s)"
    by simp
  then have "rev (dropWhile is_space (rev (strip s))) = strip s"
    by simp
  then show ?thesis
    unfolding strip_def[of "strip s"] strip_no_leading by simp
qed



lemma length_batch_items [simp]: "length (batch_items_of sub) = length sub"
  by (simp add: batch_items_of_def)


lemma item_id_reply_entry:
  "item_id B (JObj [(ustr ''id'', JInt j), (ustr ''retain'', x), (ustr ''exclude_reason'', y)]) = Some j"
  by (simp add: dict_get_def ustr_def)



lemma strip_Nil [simp]: "strip [] = []"
  by (simp add: strip_def)

lemma strip_normalized_truth [simp]:
  "strip (snd (normalized_truth truth t)) = snd (normalized_truth truth t)"
  by (simp add: normalized_truth_def)






section \<open>Reasons of the filter verdicts\<close>







section \<open>The id mapping\<close>

lemma id2code_of_zip: "id2code_of codes = zip [1 ..< length codes + 1] codes"
proof (rule nth_equalityI)
  show "length (id2code_of codes) = length (zip [1 ..< length codes + 1] codes)"
    by (simp add: id2code_of_def del: upt_Suc)
  fix i assume "i < length (id2code_of codes)"
  then have i: "i < length codes" by (simp add: id2code_of_def)
  then have "id2code_of codes ! i = (i + 1, codes ! i)"
    by (simp add: id2code_of_def nth_enumerate_eq)
  moreover have "zip [1 ..< length codes + 1] codes ! i = (i + 1, codes ! i)"
    using i by (simp del: upt_Suc)
  ultimately show "id2code_of codes ! i = zip [1 ..< length codes + 1] codes ! i" by simp
qed

lemma id2code_of_keys: "map fst (id2code_of codes) = [1 ..< length codes + 1]"
  unfolding id2code_of_zip by (simp del: upt_Suc)

lemma id2code_of_values: "map snd (id2code_of codes) = codes"
  unfolding id2code_of_zip by (simp del: upt_Suc)

lemma id2code_of_member:
  assumes "1 \<le> cid" "cid \<le> length codes"
  shows "(cid, codes ! (cid - 1)) \<in> set (id2code_of codes)"
proof -
  have lt: "cid - 1 < length codes" using assms by linarith
  then have "enumerate 0 codes ! (cid - 1) = (cid - 1, codes ! (cid - 1))"
    by (simp add: nth_enumerate_eq)
  then have "id2code_of codes ! (cid - 1) = (cid, codes ! (cid - 1))"
    using lt assms(1) by (simp add: id2code_of_def)
  moreover have "cid - 1 < length (id2code_of codes)"
    using lt by (simp add: id2code_of_def)
  ultimately show ?thesis
    by (metis nth_mem)
qed

lemma code2id_fold_other:
  "v \<notin> snd ` set items \<Longrightarrow> fold code2id_step items m v = m v"
  by (induction items arbitrary: m) (simp_all add: code2id_step_def)

lemma code2id_fold_member:
  "distinct (map snd items) \<Longrightarrow> (k, v) \<in> set items \<Longrightarrow> fold code2id_step items m v = Some k"
proof (induction items arbitrary: m)
  case Nil
  then show ?case by simp
next
  case (Cons kv items)
  show ?case
  proof (cases "(k, v) = kv")
    case True
    have "snd kv \<notin> set (map snd items)" using Cons.prems(1) by simp
    then have "v \<notin> snd ` set items" using True[symmetric] by simp
    then have "fold code2id_step items (code2id_step kv m) v = code2id_step kv m v"
      by (rule code2id_fold_other)
    also have "\<dots> = Some k"
      using True[symmetric] by (simp add: code2id_step_def)
    finally show ?thesis by simp
  next
    case False
    then have "(k, v) \<in> set items" using Cons.prems(2) by simp
    then have "fold code2id_step items (code2id_step kv m) v = Some k"
      using Cons.IH Cons.prems(1) by simp
    then show ?thesis by simp
  qed
qed

text \<open>
  C6 (id-mapping round trip). For a duplicate-free list of \<open>K\<close> codes, the dict \<open>id2code\<close>
  that \<open>filter_unique_codes_with_batching\<close> returns maps each id \<open>cid\<close> of \<open>1, \<dots>, K\<close> to the
  code at position \<open>cid - 1\<close>, it is a bijection from the ids onto the codes, and the reverse
  dict \<open>code2id\<close> of \<open>build_filter_outputs_from_open_df\<close> maps that code back to \<open>cid\<close>.
\<close>

theorem id_mapping_round_trip:
  assumes "distinct unique_codes" "1 \<le> cid" "cid \<le> length unique_codes"
  shows "map_of (id2code_of unique_codes) cid = Some (unique_codes ! (cid - 1)) \<and>
         code2id_of (id2code_of unique_codes) (unique_codes ! (cid - 1)) = Some cid \<and>
         bij_betw (\<lambda>cid. unique_codes ! (cid - 1)) {1 .. length unique_codes} (set unique_codes) \<and>
         dom (map_of (id2code_of unique_codes)) = {1 .. length unique_codes} \<and>
         (filter_unique_codes_with_batching B call unique_codes batch_size max_retries w = Inr (st, m)
            \<longrightarrow> m = id2code_of unique_codes)"
proof (intro conjI impI)
  have mem: "(cid, unique_codes ! (cid - 1)) \<in> set (id2code_of unique_codes)"
    using id2code_of_member[OF assms(2,3)] .
  have dk: "distinct (map fst (id2code_of unique_codes))"
    by (simp add: id2code_of_keys del: upt_Suc)
  show "map_of (id2code_of unique_codes) cid = Some (unique_codes ! (cid - 1))"
    using map_of_is_SomeI[OF dk mem] .
  have dv: "distinct (map snd (id2code_of unique_codes))"
    using assms(1) by (simp add: id2code_of_values)
  show "code2id_of (id2code_of unique_codes) (unique_codes ! (cid - 1)) = Some cid"
    unfolding code2id_of_def using code2id_fold_member[OF dv mem] .
  show "bij_betw (\<lambda>cid. unique_codes ! (cid - 1)) {1 .. length unique_codes} (set unique_codes)"
  proof -
    have b1: "bij_betw (\<lambda>cid. cid - 1) {1 .. length unique_codes} {..< length unique_codes}"
      by (rule bij_betw_byWitness[where f' = Suc]) auto
    have b2: "bij_betw ((!) unique_codes) {..< length unique_codes} (set unique_codes)"
      using assms(1) by (rule bij_betw_nth) simp_all
    show ?thesis
      using bij_betw_trans[OF b1 b2] by (simp add: comp_def)
  qed
  show "dom (map_of (id2code_of unique_codes)) = {1 .. length unique_codes}"
  proof -
    have "dom (map_of (id2code_of unique_codes)) = set (map fst (id2code_of unique_codes))"
      by (simp add: dom_map_of_conv_image_fst)
    also have "\<dots> = {1 .. length unique_codes}"
      unfolding id2code_of_keys by auto
    finally show ?thesis .
  qed
  show "m = id2code_of unique_codes"
    if "filter_unique_codes_with_batching B call unique_codes batch_size max_retries w = Inr (st, m)"
    using that by (simp add: filter_unique_codes_with_batching_def Let_def split: if_splits)
qed

theorem id_mapping_round_trip_witness:
  "distinct example_codes \<and> (1::nat) \<le> 2 \<and> 2 \<le> length example_codes \<and>
   map_of (id2code_of example_codes) 2 = Some (ustr ''b'') \<and>
   code2id_of (id2code_of example_codes) (ustr ''b'') = Some 2"
proof -
  have d: "distinct example_codes" by (simp add: example_codes_def ustr_def)
  have l: "(1::nat) \<le> 2" "2 \<le> length example_codes" by (simp_all add: example_codes_def)
  have n: "example_codes ! (2 - 1) = ustr ''b''" by (simp add: example_codes_def)
  show ?thesis
    using id_mapping_round_trip[OF d l, THEN conjunct1]
      id_mapping_round_trip[OF d l, THEN conjunct2, THEN conjunct1] d l n by simp
qed

section \<open>The coverage validator\<close>

lemma set_first_occurrences [simp]: "set (first_occurrences xs) = set xs"
  by (simp add: first_occurrences_def)








section \<open>The text segmenter\<close>

lemmas segmenter_defs =
  parse_qa_blocks_def splitlines_def qa_step_def flush_pending_def strip_def lstrip_def
  strip_marker_def is_space_def is_linebreak_def ustr_def Let_def

text \<open>What does hold of every text: a block is emitted only with a non-empty answer.\<close>

lemma dropWhile_keeps: "x \<in> set xs \<Longrightarrow> \<not> P x \<Longrightarrow> x \<in> set (dropWhile P xs)"
  by (induction xs) auto

lemma strip_nonempty:
  assumes "c \<in> set s" "\<not> is_space c"
  shows "strip s \<noteq> []"
proof -
  have "c \<in> set (rev (dropWhile is_space s))"
    using dropWhile_keeps[of c s is_space] assms by simp
  then have "c \<in> set (dropWhile is_space (rev (dropWhile is_space s)))"
    using dropWhile_keeps[of c "rev (dropWhile is_space s)" is_space] assms(2) by simp
  then have "dropWhile is_space (rev (dropWhile is_space s)) \<noteq> []"
    by (cases "dropWhile is_space (rev (dropWhile is_space s))") simp_all
  then show ?thesis by (simp add: strip_def)
qed

lemma nonempty_strip_has_text:
  assumes "strip s \<noteq> []"
  shows "\<exists>c\<in>set (strip s). \<not> is_space c"
proof -
  have "dropWhile is_space (strip s) = strip s" by (rule strip_no_leading)
  then have "\<not> is_space (hd (strip s))"
    using assms hd_dropWhile[of is_space "strip s"] by simp
  then show ?thesis using assms hd_in_set by blast
qed

lemma nonempty_lstrip_has_text:
  assumes "lstrip s \<noteq> []"
  shows "\<exists>c\<in>set (lstrip s). \<not> is_space c"
proof -
  have "\<not> is_space (hd (lstrip s))"
    using assms hd_dropWhile[of is_space s] by (simp add: lstrip_def)
  then show ?thesis using assms hd_in_set by blast
qed

lemma set_join_first: "set x \<subseteq> set (join sep (x # xs))"
  by (cases xs) auto

lemma flush_pending_ok: "answers_ok st \<Longrightarrow> answers_ok (flush_pending st)"
proof (cases "current_q st")
  case None
  assume "answers_ok st"
  then show ?thesis using None by (simp add: flush_pending_def)
next
  case (Some q)
  assume ok: "answers_ok st"
  show ?thesis
  proof (cases "current_a_lines st")
    case Nil
    then show ?thesis using ok Some by (simp add: flush_pending_def)
  next
    case (Cons l ls)
    then obtain c where "c \<in> set l" "\<not> is_space c"
      using ok by (auto simp: answers_ok_def)
    then have "strip (join [10] (l # ls)) \<noteq> []"
      using set_join_first[of l "[10]" ls] strip_nonempty by blast
    then show ?thesis
      using ok Some Cons by (simp add: flush_pending_def answers_ok_def)
  qed
qed

lemma qa_step_ok: "answers_ok st \<Longrightarrow> answers_ok (qa_step raw_line st)"
proof -
  assume ok: "answers_ok st"
  have f: "answers_ok ((flush_pending st)\<lparr>current_q := q\<rparr>)" for q
    using flush_pending_ok[OF ok] by (simp add: answers_ok_def)
  have a: "answers_ok (st\<lparr>current_a_lines := current_a_lines st @ [l]\<rparr>)"
    if "\<exists>c\<in>set l. \<not> is_space c" for l
    using ok that by (auto simp: answers_ok_def)
  have q: "answers_ok (st\<lparr>current_q := q\<rparr>)" for q
    using ok by (simp add: answers_ok_def)
  show ?thesis
    using ok f a[OF nonempty_strip_has_text] a[OF nonempty_lstrip_has_text] q
    by (auto simp: qa_step_def Let_def strip_marker_def split: option.splits)
qed

lemma fold_qa_step_ok: "answers_ok st \<Longrightarrow> answers_ok (fold qa_step ls st)"
  by (induction ls arbitrary: st) (simp_all add: qa_step_ok)

lemma segmenter_answers_nonempty: "b \<in> set (parse_qa_blocks text) \<Longrightarrow> answer b \<noteq> []"
proof -
  have "answers_ok \<lparr>blocks = [], current_q = None, current_a_lines = []\<rparr>"
    by (simp add: answers_ok_def)
  then have "answers_ok (flush_pending
       (fold qa_step (splitlines text) \<lparr>blocks = [], current_q = None, current_a_lines = []\<rparr>))"
    by (intro flush_pending_ok fold_qa_step_ok)
  then show "b \<in> set (parse_qa_blocks text) \<Longrightarrow> answer b \<noteq> []"
    by (simp add: parse_qa_blocks_def answers_ok_def)
qed

text \<open>The example of the specification: one block, the two answer lines joined by a
  newline.\<close>

lemma segmenter_example:
  "parse_qa_blocks example_transcript =
     [\<lparr>question = [20320, 35273, 24471, 24037, 20316, 21387, 21147, 22823, 21527, 65311],
       answer = [26159, 30340, 65292, 21387, 21147, 24456, 22823, 10, 24456, 32047]\<rparr>]"
  by (simp add: example_transcript_def segmenter_defs)

text \<open>
  C8 (the segmenter drops answer-less questions). The code emits a block for a question
  that no answer line follows: on \<open>"A: x\\nQ: y"\<close> the answer line that precedes the first
  question stays in the answer buffer (the buffer is reset only inside the flush, which
  needs an open question), and the final flush pairs it with the question \<open>y\<close>.
\<close>

theorem segmenter_orphan_answer:
  "parse_qa_blocks orphan_answer_text = [\<lparr>question = ustr ''y'', answer = ustr ''x''\<rparr>]"
  by (simp add: orphan_answer_text_def segmenter_defs)

section \<open>The structured-response extractor\<close>

text \<open>The order of the strategies: the direct parse of the stripped text, then the parse
  of the text from the first \<open>{\<close> to the last \<open>}\<close>, then \<open>None\<close>.\<close>

lemma safe_parse_json_direct:
  "json_loads B (sub_trailing_fence (sub_fence (sub_fence_json (strip text)))) = Some v \<Longrightarrow>
   safe_parse_json B text = v"
  by (simp add: safe_parse_json_def)

lemma safe_parse_json_no_braces:
  assumes "json_loads B (sub_trailing_fence (sub_fence (sub_fence_json (strip text)))) = None"
    and "123 \<notin> set (sub_trailing_fence (sub_fence (sub_fence_json (strip text)))) \<or>
         125 \<notin> set (sub_trailing_fence (sub_fence (sub_fence_json (strip text))))"
  shows "safe_parse_json B text = JNull"
  using assms by (auto simp: safe_parse_json_def)

lemma safe_parse_json_snippet:
  assumes "s = sub_trailing_fence (sub_fence (sub_fence_json (strip text)))"
    and "json_loads B s = None" and "123 \<in> set s" and "125 \<in> set s"
  shows "safe_parse_json B text =
         (case json_loads B (py_slice s (find_char 123 s) (rfind_char 125 s + 1)) of
            Some v \<Rightarrow> v | None \<Rightarrow> JNull)"
  using assms by (simp add: safe_parse_json_def Let_def)

text \<open>
  C9 (the extractor returns a JSON object or null). The result of the first strategy is
  returned whatever kind of JSON value it is: on the text \<open>[1, 2]\<close>, which \<open>json.loads\<close>
  parses to a list, \<open>safe_parse_json\<close> returns that list, neither a dict nor \<open>None\<close>.
\<close>

theorem safe_parse_json_returns_list:
  assumes "json_loads B (ustr ''[1, 2]'') = Some (JList [JInt 1, JInt 2])"
  shows "safe_parse_json B (ustr ''[1, 2]'') = JList [JInt 1, JInt 2]"
proof -
  have "sub_trailing_fence (sub_fence (sub_fence_json (strip (ustr ''[1, 2]'')))) = ustr ''[1, 2]''"
    by (simp add: ustr_def strip_def is_space_def fence_at_end_def lstrip_def)
  then show ?thesis
    using assms by (simp add: safe_parse_json_def)
qed

theorem safe_parse_json_returns_list_witness:
  "json_loads list_builtins (ustr ''[1, 2]'') = Some (JList [JInt 1, JInt 2]) \<and>
   safe_parse_json list_builtins (ustr ''[1, 2]'') = JList [JInt 1, JInt 2]"
proof -
  have h: "json_loads list_builtins (ustr ''[1, 2]'') = Some (JList [JInt 1, JInt 2])"
    by (simp add: list_builtins_def)
  show ?thesis
    using safe_parse_json_returns_list[OF h] h by simp
qed

end
